theory Spec2Isabelle
  imports Main
begin

section \<open>Data model\<close>

text \<open>
  The rows the views of \<^verbatim>\<open>athletes/views.py\<close> read and write.  A foreign key
  that the views follow to an attribute (\<^verbatim>\<open>athlete.team.sport\<close>,
  \<^verbatim>\<open>request.user.coach.team\<close>) is kept as the related row itself; a foreign key
  that is only compared or filtered on is kept as the primary key it stores.  The
  models themselves are not among the sources; columns no view below reads or writes
  (names, gender, campus, the event of a record) are left out.
\<close>

datatype Role = ADMINISTRATOR | COACH | ATHLETE

record Team =
  team_pk :: nat
  team_sport :: nat

record Coach =
  coach_pk :: nat
  coach_team :: "Team option"

record Athlete =
  athlete_pk :: nat
  athlete_user_id :: nat
  athlete_team :: "Team option"
  athlete_coach :: "nat option"

text \<open>
  \<^verbatim>\<open>request.user\<close>: \<open>user_coach\<close> and \<open>user_athlete\<close> are the reverse one-to-one
  profiles, \<open>None\<close> where \<^verbatim>\<open>hasattr(request.user, 'coach')\<close> is false.
\<close>

record CustomUser =
  user_pk :: nat
  user_role :: Role
  user_coach :: "Coach option"
  user_athlete :: "Athlete option"

record Statistic =
  stat_pk :: nat
  stat_name :: string
  short_name :: string
  stat_sport :: "nat option"

record PerformanceStat =
  ps_pk :: nat
  ps_athlete :: nat
  ps_statistic :: nat
  ps_year :: int
  ps_value :: string

record database =
  users :: "CustomUser list"
  athletes :: "Athlete list"
  statistics :: "Statistic list"
  performance_stats :: "PerformanceStat list"

datatype exn = MultipleObjectsReturned | DoesNotExist | ValueError

text \<open>The primary key a table hands to a new row: one more than every key in use.\<close>

definition fresh_pk :: "nat list \<Rightarrow> nat" where
  "fresh_pk pks = Suc (fold max pks 0)"

section \<open>The object-relational operations the views call\<close>

text \<open>
  \<^verbatim>\<open>Statistic.objects.get_or_create(name=label, sport=None, defaults={'short_name': key})\<close>:
  the lookup is by name and null sport only; one match is returned as it is, no match
  creates the row with the default short name, several matches raise.
\<close>

definition get_or_create :: "database \<Rightarrow> string \<Rightarrow> string \<Rightarrow> exn + (Statistic \<times> database)" where
  "get_or_create db label key =
     (case filter (\<lambda>s. stat_name s = label \<and> stat_sport s = None) (statistics db) of
        [] \<Rightarrow>
          (let s = \<lparr>stat_pk = fresh_pk (map stat_pk (statistics db)), stat_name = label,
                    short_name = key, stat_sport = None\<rparr>
           in Inr (s, db\<lparr>statistics := statistics db @ [s]\<rparr>))
      | [s] \<Rightarrow> Inr (s, db)
      | _ \<Rightarrow> Inl MultipleObjectsReturned)"

text \<open>
  \<^verbatim>\<open>PerformanceStat.objects.update_or_create(athlete=.., statistic=.., year=.., defaults={'value': value})\<close>:
  one match has its value set and is saved (an update of the row with that primary
  key), no match creates the row, several matches raise.
\<close>

definition ps_matches :: "nat \<Rightarrow> nat \<Rightarrow> int \<Rightarrow> PerformanceStat \<Rightarrow> bool" where
  "ps_matches a s y r \<longleftrightarrow> ps_athlete r = a \<and> ps_statistic r = s \<and> ps_year r = y"

definition update_or_create :: "database \<Rightarrow> nat \<Rightarrow> nat \<Rightarrow> int \<Rightarrow> string \<Rightarrow> exn + database" where
  "update_or_create db a s y v =
     (case filter (ps_matches a s y) (performance_stats db) of
        [] \<Rightarrow>
          Inr (db\<lparr>performance_stats := performance_stats db @
                 [\<lparr>ps_pk = fresh_pk (map ps_pk (performance_stats db)), ps_athlete = a,
                   ps_statistic = s, ps_year = y, ps_value = v\<rparr>]\<rparr>)
      | [r] \<Rightarrow>
          Inr (db\<lparr>performance_stats :=
                 map (\<lambda>x. if ps_pk x = ps_pk r then x\<lparr>ps_value := v\<rparr> else x)
                   (performance_stats db)\<rparr>)
      | _ \<Rightarrow> Inl MultipleObjectsReturned)"

text \<open>\<^verbatim>\<open>Statistic.objects.filter(sport=athlete_sport)\<close>, in table order.\<close>

definition sport_specific_stats :: "database \<Rightarrow> nat \<Rightarrow> Statistic list" where
  "sport_specific_stats db sp = filter (\<lambda>s. stat_sport s = Some sp) (statistics db)"

section \<open>Forms\<close>

datatype field_kind = CharField | IntegerField

record form_field =
  field_label :: string
  field_required :: bool
  field_kind :: field_kind

datatype pyval = IntV int | StrV string

text \<open>
  The submitted data as the form's fields read it: the year as an integer, \<open>None\<close>
  when it is missing or not a number, and the text of every other submitted field.
\<close>

record post_data =
  post_year :: "int option"
  post_fields :: "string \<rightharpoonup> string"

record form =
  form_fields :: "string \<rightharpoonup> form_field"
  form_initial :: "string \<rightharpoonup> pyval"
  form_data :: "post_data option"

text \<open>
  \<^verbatim>\<open>GameReportForm.__init__\<close> of \<^verbatim>\<open>events/forms.py\<close>: with a sport, one optional
  text field per statistic of that sport, stored under the statistic's short name
  (a later statistic with the same short name replaces the field); no field otherwise.
\<close>

definition stat_field :: "Statistic \<Rightarrow> form_field" where
  "stat_field stat = \<lparr>field_label = stat_name stat, field_required = False, field_kind = CharField\<rparr>"

definition GameReportForm :: "database \<Rightarrow> nat option \<Rightarrow> form" where
  "GameReportForm db sport =
     \<lparr>form_fields =
        (case sport of
           None \<Rightarrow> Map.empty
         | Some sp \<Rightarrow> fold (\<lambda>stat fs. fs(short_name stat \<mapsto> stat_field stat))
                       (sport_specific_stats db sp) Map.empty),
      form_initial = Map.empty, form_data = None\<rparr>"

text \<open>
  Modelled from the spec: \<^verbatim>\<open>ScorecardForm\<close> of \<^verbatim>\<open>athletes/forms.py\<close>, which is not
  among the sources.  The spec (4.2): for each universal and each sport-specific
  statistic one optional free-text field keyed by the short code, plus one required
  year field; validation fails if the year is missing or non-numeric, every statistic
  field is optional.  The statistic fields are added the way \<open>GameReportForm\<close> adds
  them.
\<close>

definition year_field :: form_field where
  "year_field = \<lparr>field_label = ''Year'', field_required = True, field_kind = IntegerField\<rparr>"

definition universal_field :: "string \<Rightarrow> form_field" where
  "universal_field label = \<lparr>field_label = label, field_required = False, field_kind = CharField\<rparr>"

definition ScorecardForm ::
  "(string \<times> string) list \<Rightarrow> database \<Rightarrow> post_data option \<Rightarrow> (string \<rightharpoonup> pyval) \<Rightarrow> nat \<Rightarrow> form" where
  "ScorecardForm universal db data initial sp =
     \<lparr>form_fields =
        fold (\<lambda>stat fs. fs(short_name stat \<mapsto> stat_field stat)) (sport_specific_stats db sp)
          (fold (\<lambda>(key, label) fs. fs(key \<mapsto> universal_field label)) universal
             [''year'' \<mapsto> year_field]),
      form_initial = initial, form_data = data\<rparr>"

text \<open>
  \<^verbatim>\<open>form.is_valid()\<close> and \<^verbatim>\<open>form.cleaned_data\<close>: \<open>None\<close> when the form is not
  valid, else the year and the cleaned text of every text field (the empty string for
  a field that was not submitted).
\<close>

definition cleaned_data :: "form \<Rightarrow> (int \<times> (string \<rightharpoonup> string)) option" where
  "cleaned_data f =
     (case form_data f of
        None \<Rightarrow> None
      | Some d \<Rightarrow>
          (case post_year d of
             None \<Rightarrow> None
           | Some y \<Rightarrow>
               Some (y, \<lambda>k. case form_fields f k of
                              None \<Rightarrow> None
                            | Some fld \<Rightarrow>
                                (case post_fields d k of None \<Rightarrow> Some [] | Some v \<Rightarrow> Some v))))"

section \<open>The statistics view\<close>

datatype flash =
    Error_no_team
  | Error_not_authorized
  | Success_updated int
  | Success_deleted nat

datatype http_method = GET | POST

record request =
  req_user :: "CustomUser option"
  req_method :: http_method
  req_post :: post_data
  req_athlete_ids :: "nat option list"

datatype response =
    Redirect_login
  | Http404
  | Redirect_athlete_detail nat flash
  | Redirect_athlete_list "flash option"
  | Render_manage_stats_form form Athlete
  | Server_error exn

text \<open>\<^verbatim>\<open>if value:\<close> on \<^verbatim>\<open>form.cleaned_data.get(key)\<close>: a missing key and the empty string are both false.\<close>

definition truthy :: "string option \<Rightarrow> bool" where
  "truthy value \<longleftrightarrow> (case value of None \<Rightarrow> False | Some v \<Rightarrow> v \<noteq> [])"

text \<open>
  The loop over \<^verbatim>\<open>UNIVERSAL_STATISTICS\<close> (lines 260 to 272).  No
  \<^verbatim>\<open>transaction.atomic()\<close> encloses it, so every call commits on its own: when a call
  raises, the database keeps what the calls before it wrote.
\<close>

fun universal_loop ::
  "nat \<Rightarrow> int \<Rightarrow> (string \<rightharpoonup> string) \<Rightarrow> (string \<times> string) list \<Rightarrow> database \<Rightarrow> exn option \<times> database" where
  "universal_loop athlete year cleaned [] db = (None, db)"
| "universal_loop athlete year cleaned ((key, label) # rest) db =
     (if truthy (cleaned key) then
        (case get_or_create db label key of
           Inl e \<Rightarrow> (Some e, db)
         | Inr (stat_obj, db1) \<Rightarrow>
             (case update_or_create db1 athlete (stat_pk stat_obj) year (the (cleaned key)) of
                Inl e \<Rightarrow> (Some e, db1)
              | Inr db2 \<Rightarrow> universal_loop athlete year cleaned rest db2))
      else universal_loop athlete year cleaned rest db)"

text \<open>The loop over \<^verbatim>\<open>sport_specific_stats\<close> (lines 275 to 283).\<close>

fun specific_loop ::
  "nat \<Rightarrow> int \<Rightarrow> (string \<rightharpoonup> string) \<Rightarrow> Statistic list \<Rightarrow> database \<Rightarrow> exn option \<times> database" where
  "specific_loop athlete year cleaned [] db = (None, db)"
| "specific_loop athlete year cleaned (stat_definition # rest) db =
     (if truthy (cleaned (short_name stat_definition)) then
        (case update_or_create db athlete (stat_pk stat_definition) year
                (the (cleaned (short_name stat_definition))) of
           Inl e \<Rightarrow> (Some e, db)
         | Inr db1 \<Rightarrow> specific_loop athlete year cleaned rest db1)
      else specific_loop athlete year cleaned rest db)"

text \<open>
  Both loops in sequence.  The queryset \<^verbatim>\<open>sport_specific_stats\<close> is lazy: its rows
  are read when the second loop starts, after the first loop's writes.
\<close>

definition upsert ::
  "(string \<times> string) list \<Rightarrow> nat \<Rightarrow> nat \<Rightarrow> int \<Rightarrow> (string \<rightharpoonup> string) \<Rightarrow> database \<Rightarrow> exn option \<times> database" where
  "upsert universal athlete sp year cleaned db =
     (case universal_loop athlete year cleaned universal db of
        (Some e, db1) \<Rightarrow> (Some e, db1)
      | (None, db1) \<Rightarrow> specific_loop athlete year cleaned (sport_specific_stats db1 sp) db1)"

text \<open>The authorization check (lines 240, 241 and 252).\<close>

definition is_their_coach :: "CustomUser \<Rightarrow> Athlete \<Rightarrow> bool" where
  "is_their_coach u athlete \<longleftrightarrow>
     (case user_coach u of None \<Rightarrow> False | Some c \<Rightarrow> athlete_coach athlete = Some (coach_pk c))"

definition is_admin :: "CustomUser \<Rightarrow> bool" where
  "is_admin u \<longleftrightarrow> user_role u = ADMINISTRATOR"

text \<open>
  The initial data of the fresh form (lines 287 to 290): the current year, then the
  value of every record of the athlete in that year under its statistic's short name.
\<close>

fun initial_data ::
  "database \<Rightarrow> PerformanceStat list \<Rightarrow> (string \<rightharpoonup> pyval) \<Rightarrow> exn + (string \<rightharpoonup> pyval)" where
  "initial_data db [] ini = Inr ini"
| "initial_data db (stat_record # rest) ini =
     (case find (\<lambda>s. stat_pk s = ps_statistic stat_record) (statistics db) of
        None \<Rightarrow> Inl DoesNotExist
      | Some stat \<Rightarrow> initial_data db rest (ini(short_name stat \<mapsto> StrV (ps_value stat_record))))"

text \<open>
  The branch of a POST request (lines 257 to 285): an exception of the loops is not
  caught and leaves the view; an invalid form is rendered again.
\<close>

definition stats_post ::
  "(string \<times> string) list \<Rightarrow> request \<Rightarrow> nat \<Rightarrow> Athlete \<Rightarrow> nat \<Rightarrow> database \<Rightarrow> response \<times> database" where
  "stats_post universal request pk athlete athlete_sport db =
     (let form = ScorecardForm universal db (Some (req_post request)) Map.empty athlete_sport
      in case cleaned_data form of
           None \<Rightarrow> (Render_manage_stats_form form athlete, db)
         | Some (year, cleaned) \<Rightarrow>
             (case upsert universal (athlete_pk athlete) athlete_sport year cleaned db of
                (Some e, db1) \<Rightarrow> (Server_error e, db1)
              | (None, db1) \<Rightarrow> (Redirect_athlete_detail pk (Success_updated year), db1)))"

text \<open>The branch of any other request (lines 287 to 293); \<open>today\<close> is \<^verbatim>\<open>datetime.date.today().year\<close>.\<close>

definition stats_get ::
  "(string \<times> string) list \<Rightarrow> int \<Rightarrow> Athlete \<Rightarrow> nat \<Rightarrow> database \<Rightarrow> response \<times> database" where
  "stats_get universal today athlete athlete_sport db =
     (case initial_data db
             (filter (\<lambda>r. ps_athlete r = athlete_pk athlete \<and> ps_year r = today)
                (performance_stats db))
             [''year'' \<mapsto> IntV today] of
        Inl e \<Rightarrow> (Server_error e, db)
      | Inr ini \<Rightarrow>
          (Render_manage_stats_form (ScorecardForm universal db None ini athlete_sport) athlete, db))"

text \<open>
  \<^verbatim>\<open>manage_athlete_stats(request, pk)\<close>.  \<open>universal\<close> is the constant
  \<^verbatim>\<open>UNIVERSAL_STATISTICS\<close> of \<^verbatim>\<open>athletes/forms.py\<close>, a list of (key, label) pairs.
  The result is the response and the database after the request.  A request without
  a logged-in user is sent to the login page by \<^verbatim>\<open>@login_required\<close>.
\<close>

definition manage_athlete_stats ::
  "(string \<times> string) list \<Rightarrow> int \<Rightarrow> request \<Rightarrow> nat \<Rightarrow> database \<Rightarrow> response \<times> database" where
  "manage_athlete_stats universal today request pk db =
     (case req_user request of
        None \<Rightarrow> (Redirect_login, db)
      | Some u \<Rightarrow>
          (case find (\<lambda>a. athlete_pk a = pk) (athletes db) of
             None \<Rightarrow> (Http404, db)
           | Some athlete \<Rightarrow>
               (case athlete_team athlete of
                  None \<Rightarrow> (Redirect_athlete_detail pk Error_no_team, db)
                | Some team \<Rightarrow>
                    if \<not> (is_their_coach u athlete \<or> is_admin u) then
                      (Redirect_athlete_detail pk Error_not_authorized, db)
                    else if req_method request = POST then
                      stats_post universal request pk athlete (team_sport team) db
                    else stats_get universal today athlete (team_sport team) db)))"

section \<open>Bulk deletion in the athlete list view\<close>

text \<open>
  Step 1 of \<^verbatim>\<open>athlete_list\<close> (lines 34 to 43): the athletes the requester may see.
  \<^verbatim>\<open>filter(team=t)\<close> compares the athlete's team key with the key of \<open>t\<close>.
\<close>

definition on_team :: "Team \<Rightarrow> Athlete \<Rightarrow> bool" where
  "on_team t a \<longleftrightarrow> (case athlete_team a of None \<Rightarrow> False | Some t' \<Rightarrow> team_pk t' = team_pk t)"

definition base_queryset :: "CustomUser \<Rightarrow> database \<Rightarrow> Athlete list" where
  "base_queryset u db =
     (if user_role u = ADMINISTRATOR then athletes db
      else if user_role u = COACH then
        (case user_coach u of
           None \<Rightarrow> []
         | Some c \<Rightarrow> (case coach_team c of None \<Rightarrow> [] | Some t \<Rightarrow> filter (on_team t) (athletes db)))
      else if user_role u = ATHLETE then
        (case user_athlete u of
           None \<Rightarrow> []
         | Some a \<Rightarrow> (case athlete_team a of None \<Rightarrow> [] | Some t \<Rightarrow> filter (on_team t) (athletes db)))
      else [])"

text \<open>
  \<^verbatim>\<open>CustomUser.objects.filter(pk__in=deletable_users).delete()\<close>.  The deletion
  cascades to the athlete profile of a deleted user and to that athlete's records (the
  cascade policy of the models, which are not among the sources; the spec, section 3,
  states it for the records).  The number returned counts every row removed.
\<close>

definition delete_users :: "nat list \<Rightarrow> database \<Rightarrow> nat \<times> database" where
  "delete_users pks db =
     (let gone_users = filter (\<lambda>u. user_pk u \<in> set pks) (users db);
          gone_athletes = filter (\<lambda>a. athlete_user_id a \<in> user_pk ` set gone_users) (athletes db);
          gone_stats = filter (\<lambda>r. ps_athlete r \<in> athlete_pk ` set gone_athletes) (performance_stats db)
      in (length gone_users + length gone_athletes + length gone_stats,
          db\<lparr>users := filter (\<lambda>u. user_pk u \<notin> set pks) (users db),
             athletes := filter (\<lambda>a. athlete_user_id a \<notin> user_pk ` set gone_users) (athletes db),
             performance_stats :=
               filter (\<lambda>r. ps_athlete r \<notin> athlete_pk ` set gone_athletes) (performance_stats db)\<rparr>))"

text \<open>
  Step 2 of \<^verbatim>\<open>athlete_list\<close> (lines 50 to 60), the branch of a POST request.
  \<open>req_athlete_ids\<close> is \<^verbatim>\<open>request.POST.getlist('athlete_ids')\<close> with every value
  read as a number, \<open>None\<close> for a value that is not one: the lookup
  \<^verbatim>\<open>user_id__in\<close> raises on it before anything is deleted.
\<close>

definition athlete_list_post :: "request \<Rightarrow> database \<Rightarrow> response \<times> database" where
  "athlete_list_post request db =
     (case req_user request of
        None \<Rightarrow> (Redirect_login, db)
      | Some u \<Rightarrow>
          if None \<in> set (req_athlete_ids request) then (Server_error ValueError, db)
          else
            (let user_ids_to_delete = map the (req_athlete_ids request);
                 deletable_users =
                   map athlete_user_id
                     (filter (\<lambda>a. athlete_user_id a \<in> set user_ids_to_delete) (base_queryset u db))
             in if deletable_users \<noteq> [] then
                  (case delete_users deletable_users db of
                     (deleted_count, db1) \<Rightarrow>
                       (Redirect_athlete_list (Some (Success_deleted deleted_count)), db1))
                else (Redirect_athlete_list None, db)))"

section \<open>Notions the properties are stated with\<close>

text \<open>The triple (athlete, statistic, year) that identifies a performance record.\<close>

definition ps_key :: "PerformanceStat \<Rightarrow> nat \<times> nat \<times> int" where
  "ps_key r = (ps_athlete r, ps_statistic r, ps_year r)"

text \<open>At most one record per triple.\<close>

definition unique_triples :: "database \<Rightarrow> bool" where
  "unique_triples db \<longleftrightarrow> distinct (map ps_key (performance_stats db))"

text \<open>
  Both loops are runs of one step over a list of entries: a pair of
  \<^verbatim>\<open>UNIVERSAL_STATISTICS\<close>, whose statistic is resolved by \<open>get_or_create\<close>, or a
  statistic of the sport.  The loops above are the source; this form is what the
  proofs induct on.
\<close>

datatype entry = Universal_entry string string | Specific_entry Statistic

fun entry_value :: "(string \<rightharpoonup> string) \<Rightarrow> entry \<Rightarrow> string option" where
  "entry_value cleaned (Universal_entry key label) = cleaned key"
| "entry_value cleaned (Specific_entry d) = cleaned (short_name d)"

fun resolve_entry :: "database \<Rightarrow> entry \<Rightarrow> exn + (Statistic \<times> database)" where
  "resolve_entry db (Universal_entry key label) = get_or_create db label key"
| "resolve_entry db (Specific_entry d) = Inr (d, db)"

definition upsert_step :: "nat \<Rightarrow> int \<Rightarrow> (string \<rightharpoonup> string) \<Rightarrow> entry \<Rightarrow> database \<Rightarrow> exn option \<times> database" where
  "upsert_step a y cleaned e db =
     (if truthy (entry_value cleaned e) then
        (case resolve_entry db e of
           Inl x \<Rightarrow> (Some x, db)
         | Inr (stat_obj, db1) \<Rightarrow>
             (case update_or_create db1 a (stat_pk stat_obj) y (the (entry_value cleaned e)) of
                Inl x \<Rightarrow> (Some x, db1)
              | Inr db2 \<Rightarrow> (None, db2)))
      else (None, db))"

fun run_entries :: "nat \<Rightarrow> int \<Rightarrow> (string \<rightharpoonup> string) \<Rightarrow> entry list \<Rightarrow> database \<Rightarrow> exn option \<times> database" where
  "run_entries a y cleaned [] db = (None, db)"
| "run_entries a y cleaned (e # es) db =
     (case upsert_step a y cleaned e db of
        (Some x, db1) \<Rightarrow> (Some x, db1)
      | (None, db1) \<Rightarrow> run_entries a y cleaned es db1)"

definition universal_entries :: "(string \<times> string) list \<Rightarrow> entry list" where
  "universal_entries universal = map (\<lambda>(key, label). Universal_entry key label) universal"

text \<open>The entries of one submission: the universal pairs, then the statistics of the sport.\<close>

definition upsert_entries :: "(string \<times> string) list \<Rightarrow> database \<Rightarrow> nat \<Rightarrow> entry list" where
  "upsert_entries universal db sp =
     universal_entries universal @ map Specific_entry (sport_specific_stats db sp)"

text \<open>Setting the value of the records of one triple, and primary keys being unique.\<close>

definition set_value :: "nat \<times> nat \<times> int \<Rightarrow> string \<Rightarrow> PerformanceStat \<Rightarrow> PerformanceStat" where
  "set_value K v x = (if ps_key x = K then x\<lparr>ps_value := v\<rparr> else x)"

definition unique_pks :: "database \<Rightarrow> bool" where
  "unique_pks db \<longleftrightarrow>
     distinct (map stat_pk (statistics db)) \<and> distinct (map ps_pk (performance_stats db))"

text \<open>
  The statistics an entry stands for in a database, and the writes (triple and value)
  a submission makes, read against a database.
\<close>

fun entry_matches :: "database \<Rightarrow> entry \<Rightarrow> Statistic list" where
  "entry_matches db (Universal_entry key label) =
     filter (\<lambda>s. stat_name s = label \<and> stat_sport s = None) (statistics db)"
| "entry_matches db (Specific_entry d) = [d]"

definition entry_writes ::
  "nat \<Rightarrow> int \<Rightarrow> (string \<rightharpoonup> string) \<Rightarrow> database \<Rightarrow> entry \<Rightarrow> ((nat \<times> nat \<times> int) \<times> string) list" where
  "entry_writes a y cleaned db e =
     (if truthy (entry_value cleaned e)
      then map (\<lambda>m. ((a, stat_pk m, y), the (entry_value cleaned e))) (entry_matches db e)
      else [])"

definition writes ::
  "nat \<Rightarrow> int \<Rightarrow> (string \<rightharpoonup> string) \<Rightarrow> database \<Rightarrow> entry list \<Rightarrow> ((nat \<times> nat \<times> int) \<times> string) list" where
  "writes a y cleaned db es = concat (map (entry_writes a y cleaned db) es)"

definition apply_writes :: "((nat \<times> nat \<times> int) \<times> string) list \<Rightarrow> PerformanceStat \<Rightarrow> PerformanceStat" where
  "apply_writes ws x = fold (\<lambda>(K, v). set_value K v) ws x"

text \<open>
  A statistic definition no submitted value is for: a universal definition when no
  pair of \<^verbatim>\<open>UNIVERSAL_STATISTICS\<close> with its name has a value, a definition of the
  athlete's sport when the field of its short name has none, any definition of another
  sport.
\<close>

definition not_submitted :: "(string \<times> string) list \<Rightarrow> nat \<Rightarrow> (string \<rightharpoonup> string) \<Rightarrow> Statistic \<Rightarrow> bool" where
  "not_submitted universal sp cleaned d \<longleftrightarrow>
     (case stat_sport d of
        None \<Rightarrow> list_all (\<lambda>(key, label). label \<noteq> stat_name d \<or> \<not> truthy (cleaned key)) universal
      | Some sp' \<Rightarrow> sp' \<noteq> sp \<or> \<not> truthy (cleaned (short_name d)))"

text \<open>The records of one statistic definition, for every athlete and year.\<close>

definition records_of :: "Statistic \<Rightarrow> database \<Rightarrow> PerformanceStat list" where
  "records_of d db = filter (\<lambda>r. ps_statistic r = stat_pk d) (performance_stats db)"

text \<open>The universal definitions (null sport) with a given name: what \<open>get_or_create\<close> looks up.\<close>

definition universal_definitions :: "string \<Rightarrow> database \<Rightarrow> Statistic list" where
  "universal_definitions label db =
     filter (\<lambda>s. stat_name s = label \<and> stat_sport s = None) (statistics db)"

text \<open>The database without one statistic definition.\<close>

definition without_statistic :: "Statistic \<Rightarrow> database \<Rightarrow> database" where
  "without_statistic d db = db\<lparr>statistics := removeAll d (statistics db)\<rparr>"

text \<open>
  A database is settled for a list of entries when every entry with a value stands for
  exactly one statistic and its triple has exactly one record.
\<close>

definition settled :: "nat \<Rightarrow> int \<Rightarrow> (string \<rightharpoonup> string) \<Rightarrow> database \<Rightarrow> entry list \<Rightarrow> bool" where
  "settled a y cleaned db es \<longleftrightarrow>
     (\<forall>e\<in>set es. truthy (entry_value cleaned e) \<longrightarrow>
        (\<exists>m r. entry_matches db e = [m] \<and>
               filter (\<lambda>x. ps_key x = (a, stat_pk m, y)) (performance_stats db) = [r]))"

text \<open>Every record refers to a statistic of the table (the foreign key holds).\<close>

definition statistics_present :: "database \<Rightarrow> bool" where
  "statistics_present db \<longleftrightarrow>
     list_all (\<lambda>r. ps_statistic r \<in> stat_pk ` set (statistics db)) (performance_stats db)"

section \<open>An example: one soccer player, one coach, one sport-specific statistic\<close>

definition ex_universal :: "(string \<times> string) list" where
  "ex_universal = [(''pts'', ''Points'')]"

definition ex_team :: Team where
  "ex_team = \<lparr>team_pk = 1, team_sport = 7\<rparr>"

definition ex_athlete :: Athlete where
  "ex_athlete = \<lparr>athlete_pk = 1, athlete_user_id = 10, athlete_team = Some ex_team,
                  athlete_coach = Some 3\<rparr>"

definition ex_teamless :: Athlete where
  "ex_teamless = \<lparr>athlete_pk = 2, athlete_user_id = 11, athlete_team = None,
                   athlete_coach = None\<rparr>"

definition ex_admin :: CustomUser where
  "ex_admin = \<lparr>user_pk = 20, user_role = ADMINISTRATOR, user_coach = None, user_athlete = None\<rparr>"

definition ex_coach :: CustomUser where
  "ex_coach = \<lparr>user_pk = 21, user_role = COACH,
                user_coach = Some \<lparr>coach_pk = 3, coach_team = Some ex_team\<rparr>, user_athlete = None\<rparr>"

definition ex_player :: CustomUser where
  "ex_player = \<lparr>user_pk = 10, user_role = ATHLETE, user_coach = None,
                 user_athlete = Some ex_athlete\<rparr>"

definition ex_loner :: CustomUser where
  "ex_loner = \<lparr>user_pk = 11, user_role = ATHLETE, user_coach = None,
                user_athlete = Some ex_teamless\<rparr>"

definition ex_goals :: Statistic where
  "ex_goals = \<lparr>stat_pk = 1, stat_name = ''Goals'', short_name = ''goals'', stat_sport = Some 7\<rparr>"

definition ex_db :: database where
  "ex_db = \<lparr>users = [ex_admin, ex_coach, ex_player, ex_loner],
            athletes = [ex_athlete, ex_teamless], statistics = [ex_goals],
            performance_stats = []\<rparr>"

definition ex_post :: "CustomUser \<Rightarrow> request" where
  "ex_post u = \<lparr>req_user = Some u, req_method = POST,
                req_post = \<lparr>post_year = Some 2024,
                             post_fields = [''pts'' \<mapsto> ''10'', ''goals'' \<mapsto> ''3'']\<rparr>,
                req_athlete_ids = []\<rparr>"

definition ex_scored :: database where
  "ex_scored = ex_db\<lparr>statistics := [ex_goals,
                 \<lparr>stat_pk = 2, stat_name = ''Points'', short_name = ''points'', stat_sport = None\<rparr>],
               performance_stats :=
                 [\<lparr>ps_pk = 1, ps_athlete = 1, ps_statistic = 2, ps_year = 2024, ps_value = ''10''\<rparr>,
                  \<lparr>ps_pk = 2, ps_athlete = 1, ps_statistic = 1, ps_year = 2024, ps_value = ''3''\<rparr>]\<rparr>"

definition ex_resubmitted :: "string \<rightharpoonup> string" where
  "ex_resubmitted = [''pts'' \<mapsto> ''12'', ''goals'' \<mapsto> '''']"

definition ex_delete :: "CustomUser \<Rightarrow> request" where
  "ex_delete u = \<lparr>req_user = Some u, req_method = POST,
                  req_post = \<lparr>post_year = None, post_fields = Map.empty\<rparr>,
                  req_athlete_ids = [Some 10, Some 11, Some 20]\<rparr>"

text \<open>
  A second example: two universal definitions share the name Assists (the lookup of
  \<open>get_or_create\<close> then finds two rows), and the submission has a value for Points and
  one for Assists.
\<close>

definition ex_universal2 :: "(string \<times> string) list" where
  "ex_universal2 = [(''pts'', ''Points''), (''ast'', ''Assists'')]"

definition ex_twice :: database where
  "ex_twice = ex_db\<lparr>statistics := [ex_goals,
      \<lparr>stat_pk = 2, stat_name = ''Assists'', short_name = ''ast'', stat_sport = None\<rparr>,
      \<lparr>stat_pk = 3, stat_name = ''Assists'', short_name = ''ast'', stat_sport = None\<rparr>]\<rparr>"

definition ex_post2 :: request where
  "ex_post2 = \<lparr>req_user = Some ex_admin, req_method = POST,
               req_post = \<lparr>post_year = Some 2024,
                            post_fields = [''pts'' \<mapsto> ''10'', ''ast'' \<mapsto> ''5'']\<rparr>,
               req_athlete_ids = []\<rparr>"

section \<open>Properties of the object-relational operations\<close>

lemma fold_max_ge: "x \<in> set xs \<Longrightarrow> x \<le> fold max xs (m::nat)"
proof (induction xs arbitrary: m)
  case Nil then show ?case by simp
next
  case (Cons a xs)
  have mono: "\<And>m. m \<le> fold max xs (m::nat)"
  proof -
    fix m :: nat show "m \<le> fold max xs m"
    proof (induction xs arbitrary: m)
      case Nil show ?case by simp
    next
      case (Cons b ys)
      have "m \<le> max b m" by simp
      also have "\<dots> \<le> fold max ys (max b m)" by (rule Cons.IH)
      finally show ?case by simp
    qed
  qed
  show ?case
  proof (cases "x = a")
    case True
    have "a \<le> max a m" by simp
    also have "\<dots> \<le> fold max xs (max a m)" by (rule mono)
    finally show ?thesis using True by simp
  next
    case False
    with Cons.prems have "x \<in> set xs" by simp
    then show ?thesis using Cons.IH by simp
  qed
qed

lemma fresh_pk_notin: "fresh_pk pks \<notin> set pks"
proof
  assume "fresh_pk pks \<in> set pks"
  then have "fresh_pk pks \<le> fold max pks 0" by (rule fold_max_ge)
  then show False by (simp add: fresh_pk_def)
qed

lemma ps_matches_key: "ps_matches a s y r \<longleftrightarrow> ps_key r = (a, s, y)"
  by (auto simp: ps_matches_def ps_key_def)

lemma get_or_create_cases:
  assumes "get_or_create db label key = Inr (s, db1)"
  shows "(filter (\<lambda>s. stat_name s = label \<and> stat_sport s = None) (statistics db) = [s] \<and> db1 = db)
       \<or> (filter (\<lambda>s. stat_name s = label \<and> stat_sport s = None) (statistics db) = []
          \<and> s = \<lparr>stat_pk = fresh_pk (map stat_pk (statistics db)), stat_name = label,
                    short_name = key, stat_sport = None\<rparr>
          \<and> db1 = db\<lparr>statistics := statistics db @ [s]\<rparr>)"
  using assms by (auto simp: get_or_create_def Let_def split: list.splits)

lemma get_or_create_other [simp]:
  assumes "get_or_create db label key = Inr (s, db1)"
  shows "performance_stats db1 = performance_stats db" "users db1 = users db" "athletes db1 = athletes db"
  using get_or_create_cases[OF assms] by auto

lemma update_or_create_other [simp]:
  assumes "update_or_create db a s y v = Inr db1"
  shows "statistics db1 = statistics db" "users db1 = users db" "athletes db1 = athletes db"
  using assms by (auto simp: update_or_create_def split: list.splits)

lemma update_or_create_keys:
  assumes "update_or_create db a s y v = Inr db1"
  shows "map ps_key (performance_stats db1) = map ps_key (performance_stats db)
       \<or> ((a, s, y) \<notin> set (map ps_key (performance_stats db)) \<and>
           map ps_key (performance_stats db1) = map ps_key (performance_stats db) @ [(a, s, y)])"
proof (cases "filter (ps_matches a s y) (performance_stats db)")
  case Nil
  then have "\<forall>r\<in>set (performance_stats db). \<not> ps_matches a s y r"
    by (simp add: filter_empty_conv)
  then have "(a, s, y) \<notin> set (map ps_key (performance_stats db))"
    by (auto simp: ps_matches_key)
  moreover have "db1 = db\<lparr>performance_stats := performance_stats db @
                 [\<lparr>ps_pk = fresh_pk (map ps_pk (performance_stats db)), ps_athlete = a,
                   ps_statistic = s, ps_year = y, ps_value = v\<rparr>]\<rparr>"
    using assms unfolding update_or_create_def Nil by simp
  then have "map ps_key (performance_stats db1) = map ps_key (performance_stats db) @ [(a, s, y)]"
    by (simp add: ps_key_def)
  ultimately show ?thesis by simp
next
  case (Cons r rs)
  have rs: "rs = []" using assms unfolding update_or_create_def Cons by (cases rs) simp_all
  have "db1 = db\<lparr>performance_stats :=
      map (\<lambda>x. if ps_pk x = ps_pk r then x\<lparr>ps_value := v\<rparr> else x) (performance_stats db)\<rparr>"
    using assms unfolding update_or_create_def Cons rs by simp
  then have "performance_stats db1 =
      map (\<lambda>x. if ps_pk x = ps_pk r then x\<lparr>ps_value := v\<rparr> else x) (performance_stats db)"
    by simp
  moreover have "\<And>x. ps_key (if ps_pk x = ps_pk r then x\<lparr>ps_value := v\<rparr> else x) = ps_key x"
    by (simp add: ps_key_def)
  ultimately have "map ps_key (performance_stats db1) = map ps_key (performance_stats db)"
    by (simp add: comp_def)
  then show ?thesis by simp
qed

lemma update_or_create_unique:
  assumes "update_or_create db a s y v = Inr db1" "unique_triples db"
  shows "unique_triples db1"
  using update_or_create_keys[OF assms(1)] assms(2) by (auto simp: unique_triples_def)

lemma universal_loop_unique:
  "unique_triples db \<Longrightarrow> unique_triples (snd (universal_loop a y cd us db))"
proof (induction us arbitrary: db)
  case Nil then show ?case by simp
next
  case (Cons u us)
  obtain key label where u: "u = (key, label)" by (cases u)
  show ?case
  proof (cases "truthy (cd key)")
    case False then show ?thesis using Cons u by simp
  next
    case True
    show ?thesis
    proof (cases "get_or_create db label key")
      case (Inl e) then show ?thesis using True u Cons.prems by simp
    next
      case (Inr p)
      obtain s db1 where p: "p = (s, db1)" by (cases p)
      have u1: "unique_triples db1" using Inr p Cons.prems
        by (simp add: unique_triples_def)
      show ?thesis
      proof (cases "update_or_create db1 a (stat_pk s) y (the (cd key))")
        case (Inl e) then show ?thesis using True u Inr p u1 by simp
      next
        case (Inr db2)
        then have "unique_triples db2" using u1 by (rule update_or_create_unique)
        then show ?thesis using True u \<open>get_or_create db label key = Inr p\<close> p Inr Cons.IH by simp
      qed
    qed
  qed
qed

lemma specific_loop_unique:
  "unique_triples db \<Longrightarrow> unique_triples (snd (specific_loop a y cd ds db))"
proof (induction ds arbitrary: db)
  case Nil then show ?case by simp
next
  case (Cons d ds)
  show ?case
  proof (cases "truthy (cd (short_name d))")
    case False then show ?thesis using Cons by simp
  next
    case True
    show ?thesis
    proof (cases "update_or_create db a (stat_pk d) y (the (cd (short_name d)))")
      case (Inl e) then show ?thesis using True Cons.prems by simp
    next
      case (Inr db1)
      then have "unique_triples db1" using Cons.prems by (rule update_or_create_unique)
      then show ?thesis using True Inr Cons.IH by simp
    qed
  qed
qed

lemma upsert_unique:
  assumes "unique_triples db"
  shows "unique_triples (snd (upsert us a sp y cd db))"
proof -
  obtain r db1 where ul: "universal_loop a y cd us db = (r, db1)" by (cases "universal_loop a y cd us db")
  have u1: "unique_triples db1" using universal_loop_unique[OF assms, of a y cd us] ul by simp
  show ?thesis
  proof (cases r)
    case None
    then show ?thesis using ul specific_loop_unique[OF u1] by (simp add: upsert_def)
  next
    case (Some e)
    then show ?thesis using ul u1 by (simp add: upsert_def)
  qed
qed

lemma stats_get_db [simp]: "snd (stats_get universal today athlete sp db) = db"
  by (simp add: stats_get_def split: sum.splits)

lemma stats_post_db:
  "snd (stats_post universal request pk athlete sp db) = db \<or>
   (\<exists>y cd. snd (stats_post universal request pk athlete sp db) = snd (upsert universal (athlete_pk athlete) sp y cd db))"
proof (cases "cleaned_data (ScorecardForm universal db (Some (req_post request)) Map.empty sp)")
  case None
  then show ?thesis by (simp add: stats_post_def)
next
  case (Some p)
  obtain y cd where p: "p = (y, cd)" by (cases p)
  obtain r db1 where u: "upsert universal (athlete_pk athlete) sp y cd db = (r, db1)"
    by (cases "upsert universal (athlete_pk athlete) sp y cd db")
  have "snd (stats_post universal request pk athlete sp db) = db1"
    using Some p u by (cases r) (simp_all add: stats_post_def)
  then show ?thesis using u by (metis snd_conv)
qed

lemma manage_athlete_stats_db:
  "snd (manage_athlete_stats universal today request pk db) = db \<or>
   (\<exists>a sp y cd. snd (manage_athlete_stats universal today request pk db) = snd (upsert universal a sp y cd db))"
proof (cases "req_user request")
  case None then show ?thesis by (simp add: manage_athlete_stats_def)
next
  case u: (Some u)
  show ?thesis
  proof (cases "find (\<lambda>a. athlete_pk a = pk) (athletes db)")
    case None then show ?thesis using u by (simp add: manage_athlete_stats_def)
  next
    case a: (Some athlete)
    show ?thesis
    proof (cases "athlete_team athlete")
      case None then show ?thesis using u a by (simp add: manage_athlete_stats_def)
    next
      case t: (Some team)
      show ?thesis
      proof (cases "is_their_coach u athlete \<or> is_admin u")
        case False then show ?thesis using u a t by (simp add: manage_athlete_stats_def)
      next
        case True
        show ?thesis
        proof (cases "req_method request = POST")
          case False
          then show ?thesis using True u a t by (simp add: manage_athlete_stats_def)
        next
          case P: True
          have "manage_athlete_stats universal today request pk db
                = stats_post universal request pk athlete (team_sport team) db"
            using P True u a t by (auto simp add: manage_athlete_stats_def)
          then show ?thesis using stats_post_db[of universal request pk athlete "team_sport team" db]
            by metis
        qed
      qed
    qed
  qed
qed

lemma universal_loop_run:
  "universal_loop a y cd us db = run_entries a y cd (universal_entries us) db"
proof (induction us arbitrary: db)
  case Nil show ?case by (simp add: universal_entries_def)
next
  case (Cons u us)
  obtain key label where u: "u = (key, label)" by (cases u)
  have IH: "\<And>db. universal_loop a y cd us db = run_entries a y cd (universal_entries us) db"
    by (rule Cons.IH)
  have e: "universal_entries ((key, label) # us) = Universal_entry key label # universal_entries us"
    by (simp add: universal_entries_def)
  show ?case
  proof (cases "truthy (cd key)")
    case False
    then show ?thesis unfolding u e by (simp add: upsert_step_def IH)
  next
    case True
    show ?thesis
    proof (cases "get_or_create db label key")
      case (Inl x) then show ?thesis unfolding u e using True by (simp add: upsert_step_def)
    next
      case (Inr p)
      obtain s db1 where p: "p = (s, db1)" by (cases p)
      show ?thesis
      proof (cases "update_or_create db1 a (stat_pk s) y (the (cd key))")
        case (Inl x) then show ?thesis unfolding u e using True Inr p by (simp add: upsert_step_def)
      next
        case (Inr db2)
        then show ?thesis unfolding u e using True \<open>get_or_create db label key = Inr p\<close> p
          by (simp add: upsert_step_def IH)
      qed
    qed
  qed
qed

lemma specific_loop_run:
  "specific_loop a y cd ds db = run_entries a y cd (map Specific_entry ds) db"
proof (induction ds arbitrary: db)
  case Nil show ?case by simp
next
  case (Cons d ds)
  have IH: "\<And>db. specific_loop a y cd ds db = run_entries a y cd (map Specific_entry ds) db"
    by (rule Cons.IH)
  show ?case
  proof (cases "truthy (cd (short_name d))")
    case False then show ?thesis by (simp add: upsert_step_def IH)
  next
    case True
    show ?thesis
    proof (cases "update_or_create db a (stat_pk d) y (the (cd (short_name d)))")
      case (Inl x) then show ?thesis using True by (simp add: upsert_step_def)
    next
      case (Inr db1) then show ?thesis using True by (simp add: upsert_step_def IH)
    qed
  qed
qed

lemma run_entries_append:
  "run_entries a y cd (xs @ ys) db =
     (case run_entries a y cd xs db of
        (Some x, db1) \<Rightarrow> (Some x, db1)
      | (None, db1) \<Rightarrow> run_entries a y cd ys db1)"
proof (induction xs arbitrary: db)
  case Nil show ?case by simp
next
  case (Cons e xs)
  obtain r db1 where st: "upsert_step a y cd e db = (r, db1)" by (cases "upsert_step a y cd e db")
  show ?case
  proof (cases r)
    case None then show ?thesis using st Cons.IH by simp
  next
    case (Some x) then show ?thesis using st by simp
  qed
qed

text \<open>The shapes a step can take.\<close>

lemma upsert_step_cases:
  obtains
    (skip) "\<not> truthy (entry_value cd e)" "upsert_step a y cd e db = (None, db)"
  | (unresolved) x where "truthy (entry_value cd e)" "resolve_entry db e = Inl x"
      "upsert_step a y cd e db = (Some x, db)"
  | (failed) s db1 x where "truthy (entry_value cd e)" "resolve_entry db e = Inr (s, db1)"
      "update_or_create db1 a (stat_pk s) y (the (entry_value cd e)) = Inl x"
      "upsert_step a y cd e db = (Some x, db1)"
  | (written) s db1 db2 where "truthy (entry_value cd e)" "resolve_entry db e = Inr (s, db1)"
      "update_or_create db1 a (stat_pk s) y (the (entry_value cd e)) = Inr db2"
      "upsert_step a y cd e db = (None, db2)"
proof (cases "truthy (entry_value cd e)")
  case False then show ?thesis using skip by (simp add: upsert_step_def)
next
  case True
  show ?thesis
  proof (cases "resolve_entry db e")
    case (Inl x) then show ?thesis using True unresolved by (simp add: upsert_step_def)
  next
    case (Inr p)
    obtain s db1 where p: "p = (s, db1)" by (cases p)
    show ?thesis
    proof (cases "update_or_create db1 a (stat_pk s) y (the (entry_value cd e))")
      case (Inl x) then show ?thesis using True Inr p failed by (simp add: upsert_step_def)
    next
      case (Inr db2) then show ?thesis using True \<open>resolve_entry db e = Inr p\<close> p written
        by (simp add: upsert_step_def)
    qed
  qed
qed

text \<open>Resolution appends at most one universal definition and touches nothing else.\<close>

lemma resolve_entry_cases:
  assumes "resolve_entry db e = Inr (s, db1)"
  shows "(db1 = db \<and> (case e of Universal_entry key label \<Rightarrow>
              filter (\<lambda>s. stat_name s = label \<and> stat_sport s = None) (statistics db) = [s]
            | Specific_entry d \<Rightarrow> s = d))
       \<or> (\<exists>key label. e = Universal_entry key label
            \<and> filter (\<lambda>s. stat_name s = label \<and> stat_sport s = None) (statistics db) = []
            \<and> s = \<lparr>stat_pk = fresh_pk (map stat_pk (statistics db)), stat_name = label,
                    short_name = key, stat_sport = None\<rparr>
            \<and> db1 = db\<lparr>statistics := statistics db @ [s]\<rparr>)"
proof (cases e)
  case (Universal_entry key label)
  then show ?thesis using get_or_create_cases[of db label key s db1] assms by auto
next
  case (Specific_entry d)
  then show ?thesis using assms by simp
qed

subsection \<open>The statistic table only grows, by universal definitions\<close>

lemma resolve_entry_statistics:
  assumes "resolve_entry db e = Inr (s, db1)"
  shows "\<exists>new. statistics db1 = statistics db @ new \<and> (\<forall>n\<in>set new. stat_sport n = None)"
  using resolve_entry_cases[OF assms] by auto

lemma resolve_entry_other [simp]:
  assumes "resolve_entry db e = Inr (s, db1)"
  shows "performance_stats db1 = performance_stats db" "users db1 = users db"
    "athletes db1 = athletes db"
  using resolve_entry_cases[OF assms] by auto

lemma upsert_step_statistics:
  "\<exists>new. statistics (snd (upsert_step a y cd e db)) = statistics db @ new
         \<and> (\<forall>n\<in>set new. stat_sport n = None)"
proof (cases rule: upsert_step_cases[of cd e a y db])
  case skip then show ?thesis by simp
next
  case (unresolved x) then show ?thesis by simp
next
  case (failed s db1 x)
  then show ?thesis using resolve_entry_statistics[of db e s db1] by simp
next
  case (written s db1 db2)
  then show ?thesis using resolve_entry_statistics[of db e s db1]
      update_or_create_other(1)[of db1 a "stat_pk s" y "the (entry_value cd e)" db2] by simp
qed

lemma upsert_step_other [simp]:
  "users (snd (upsert_step a y cd e db)) = users db"
  "athletes (snd (upsert_step a y cd e db)) = athletes db"
proof -
  show "users (snd (upsert_step a y cd e db)) = users db"
  proof (cases rule: upsert_step_cases[of cd e a y db])
    case skip then show ?thesis by simp
  next
    case (unresolved x) then show ?thesis by simp
  next
    case (failed s db1 x) then show ?thesis by simp
  next
    case (written s db1 db2) then show ?thesis by simp
  qed
  show "athletes (snd (upsert_step a y cd e db)) = athletes db"
  proof (cases rule: upsert_step_cases[of cd e a y db])
    case skip then show ?thesis by simp
  next
    case (unresolved x) then show ?thesis by simp
  next
    case (failed s db1 x) then show ?thesis by simp
  next
    case (written s db1 db2) then show ?thesis by simp
  qed
qed

text \<open>A run is its first step followed by the run of the rest, or stops at a failing step.\<close>

lemma run_entries_Cons_cases:
  obtains
    (stop) x where "fst (upsert_step a y cd e db) = Some x"
      "run_entries a y cd (e # es) db = upsert_step a y cd e db"
  | (go) "fst (upsert_step a y cd e db) = None"
      "run_entries a y cd (e # es) db = run_entries a y cd es (snd (upsert_step a y cd e db))"
proof -
  obtain r db1 where st: "upsert_step a y cd e db = (r, db1)" by (cases "upsert_step a y cd e db")
  show ?thesis
  proof (cases r)
    case None then show ?thesis using st go by simp
  next
    case (Some x) then show ?thesis using st stop by simp
  qed
qed

lemma run_entries_statistics:
  "\<exists>new. statistics (snd (run_entries a y cd es db)) = statistics db @ new
         \<and> (\<forall>n\<in>set new. stat_sport n = None)"
proof (induction es arbitrary: db)
  case Nil show ?case by simp
next
  case (Cons e es)
  obtain new1 where n1: "statistics (snd (upsert_step a y cd e db)) = statistics db @ new1"
      "\<forall>n\<in>set new1. stat_sport n = None"
    using upsert_step_statistics[of a y cd e db] by blast
  show ?case
  proof (cases rule: run_entries_Cons_cases[of a y cd e db es])
    case (stop x) then show ?thesis using n1 by auto
  next
    case go
    obtain new2 where n2: "statistics (snd (run_entries a y cd es (snd (upsert_step a y cd e db))))
         = statistics (snd (upsert_step a y cd e db)) @ new2" "\<forall>n\<in>set new2. stat_sport n = None"
      using Cons.IH[of "snd (upsert_step a y cd e db)"] by blast
    have "statistics (snd (run_entries a y cd (e # es) db)) = statistics db @ (new1 @ new2)"
      using go n1 n2 by simp
    moreover have "\<forall>n\<in>set (new1 @ new2). stat_sport n = None" using n1 n2 by auto
    ultimately show ?thesis by blast
  qed
qed

lemma run_entries_other [simp]:
  "users (snd (run_entries a y cd es db)) = users db"
  "athletes (snd (run_entries a y cd es db)) = athletes db"
proof -
  show "users (snd (run_entries a y cd es db)) = users db"
  proof (induction es arbitrary: db)
    case Nil show ?case by simp
  next
    case (Cons e es)
    show ?case
      by (cases rule: run_entries_Cons_cases[of a y cd e db es]) (simp_all add: Cons.IH)
  qed
  show "athletes (snd (run_entries a y cd es db)) = athletes db"
  proof (induction es arbitrary: db)
    case Nil show ?case by simp
  next
    case (Cons e es)
    show ?case
      by (cases rule: run_entries_Cons_cases[of a y cd e db es]) (simp_all add: Cons.IH)
  qed
qed

lemma run_entries_sport_specific_stats:
  "sport_specific_stats (snd (run_entries a y cd es db)) sp = sport_specific_stats db sp"
proof -
  obtain new where "statistics (snd (run_entries a y cd es db)) = statistics db @ new"
      "\<forall>n\<in>set new. stat_sport n = None"
    using run_entries_statistics[of a y cd es db] by blast
  then show ?thesis by (simp add: sport_specific_stats_def filter_empty_conv)
qed

lemma upsert_run:
  "upsert universal a sp y cd db = run_entries a y cd (upsert_entries universal db sp) db"
proof -
  obtain r db1 where u: "run_entries a y cd (universal_entries universal) db = (r, db1)"
    by (cases "run_entries a y cd (universal_entries universal) db")
  have s: "sport_specific_stats db1 sp = sport_specific_stats db sp"
    using run_entries_sport_specific_stats[of a y cd "universal_entries universal" db sp] u by simp
  show ?thesis
    by (cases r)
      (simp_all add: upsert_def upsert_entries_def universal_loop_run specific_loop_run
        run_entries_append u s)
qed

subsection \<open>What \<open>update_or_create\<close> does to the record table\<close>

lemma set_value_key [simp]: "ps_key (set_value K v x) = ps_key x"
  by (simp add: set_value_def ps_key_def)

lemma set_value_pk [simp]: "ps_pk (set_value K v x) = ps_pk x"
  by (simp add: set_value_def)

lemma set_value_other: "ps_key x \<noteq> K \<Longrightarrow> set_value K v x = x"
  by (simp add: set_value_def)

lemma set_value_value: "ps_key x = K \<Longrightarrow> ps_value (set_value K v x) = v"
  by (simp add: set_value_def)

lemma set_value_key_comp [simp]: "ps_key \<circ> set_value K v = ps_key"
  by (rule ext) simp

lemma set_value_pk_comp [simp]: "ps_pk \<circ> set_value K v = ps_pk"
  by (rule ext) simp

lemma filter_set_value:
  "\<not> Q K \<Longrightarrow> filter (\<lambda>x. Q (ps_key x)) (map (set_value K v) P) = filter (\<lambda>x. Q (ps_key x)) P"
proof (induction P)
  case Nil show ?case by simp
next
  case (Cons x P)
  show ?case
  proof (cases "ps_key x = K")
    case True then show ?thesis using Cons by simp
  next
    case False then show ?thesis using Cons by (simp add: set_value_other)
  qed
qed

lemma filter_singleton_unique:
  assumes "filter P xs = [r]" "x \<in> set xs" "P x"
  shows "x = r"
proof -
  have "x \<in> set (filter P xs)" using assms(2,3) by simp
  then show ?thesis unfolding assms(1) by simp
qed

lemma filter_singleton_mem:
  assumes "filter P xs = [r]"
  shows "r \<in> set xs \<and> P r"
proof -
  have "r \<in> set (filter P xs)" unfolding assms by simp
  then show ?thesis by simp
qed

lemma update_or_create_created:
  assumes "update_or_create db a s y v = Inr db1"
    and "filter (ps_matches a s y) (performance_stats db) = []"
  shows "db1 = db\<lparr>performance_stats := performance_stats db @
                 [\<lparr>ps_pk = fresh_pk (map ps_pk (performance_stats db)), ps_athlete = a,
                   ps_statistic = s, ps_year = y, ps_value = v\<rparr>]\<rparr>"
  using assms(1) unfolding update_or_create_def assms(2) by simp

lemma update_or_create_updated:
  assumes "update_or_create db a s y v = Inr db1"
    and "filter (ps_matches a s y) (performance_stats db) = r # rs"
  shows "rs = [] \<and> db1 = db\<lparr>performance_stats :=
      map (\<lambda>x. if ps_pk x = ps_pk r then x\<lparr>ps_value := v\<rparr> else x) (performance_stats db)\<rparr>"
proof -
  have rs: "rs = []" using assms(1) unfolding update_or_create_def assms(2) by (cases rs) simp_all
  show ?thesis using assms(1) unfolding update_or_create_def assms(2) rs by simp
qed

lemma ps_matches_filter:
  "filter (ps_matches a s y) P = filter (\<lambda>x. ps_key x = (a, s, y)) P"
  by (rule filter_cong) (simp_all add: ps_matches_key)

text \<open>
  With unique primary keys, saving the matched row is setting the value of the rows of
  the triple; a row is appended exactly when the triple has none.
\<close>

lemma update_or_create_table:
  assumes "update_or_create db a s y v = Inr db1"
    and "distinct (map ps_pk (performance_stats db))"
  shows "performance_stats db1 =
           map (set_value (a, s, y) v) (performance_stats db) @
           (if (a, s, y) \<in> ps_key ` set (performance_stats db) then []
            else [\<lparr>ps_pk = fresh_pk (map ps_pk (performance_stats db)), ps_athlete = a,
                   ps_statistic = s, ps_year = y, ps_value = v\<rparr>])"
proof (cases "filter (ps_matches a s y) (performance_stats db)")
  case Nil
  then have none: "\<forall>x\<in>set (performance_stats db). ps_key x \<noteq> (a, s, y)"
    by (simp add: filter_empty_conv ps_matches_key)
  then have "map (set_value (a, s, y) v) (performance_stats db) = performance_stats db"
    by (simp add: map_idI set_value_other)
  moreover have "(a, s, y) \<notin> ps_key ` set (performance_stats db)" using none by auto
  ultimately show ?thesis using update_or_create_created[OF assms(1) Nil] by simp
next
  case (Cons r rs)
  have u: "rs = []" "db1 = db\<lparr>performance_stats :=
      map (\<lambda>x. if ps_pk x = ps_pk r then x\<lparr>ps_value := v\<rparr> else x) (performance_stats db)\<rparr>"
    using update_or_create_updated[OF assms(1) Cons] by simp_all
  have one: "filter (ps_matches a s y) (performance_stats db) = [r]" using Cons u(1) by simp
  have r: "r \<in> set (performance_stats db)" "ps_matches a s y r"
    using filter_singleton_mem[OF one] by simp_all
  have same: "(if ps_pk x = ps_pk r then x\<lparr>ps_value := v\<rparr> else x) = set_value (a, s, y) v x"
    if x: "x \<in> set (performance_stats db)" for x
  proof (cases "x = r")
    case True then show ?thesis using r(2) by (simp add: set_value_def ps_matches_key)
  next
    case False
    have "ps_pk x \<noteq> ps_pk r"
      using assms(2) x r(1) False by (meson distinct_map inj_on_def)
    moreover have "ps_key x \<noteq> (a, s, y)"
      using filter_singleton_unique[OF one x] False by (auto simp: ps_matches_key)
    ultimately show ?thesis by (simp add: set_value_def)
  qed
  have "map (\<lambda>x. if ps_pk x = ps_pk r then x\<lparr>ps_value := v\<rparr> else x) (performance_stats db)
      = map (set_value (a, s, y) v) (performance_stats db)"
    by (rule map_cong) (simp_all add: same)
  moreover have "(a, s, y) \<in> ps_key ` set (performance_stats db)"
    using r by (auto simp: ps_matches_key intro!: image_eqI[of _ _ r])
  ultimately show ?thesis using u(2) by simp
qed

lemma update_or_create_distinct:
  assumes "update_or_create db a s y v = Inr db1"
    and "distinct (map ps_pk (performance_stats db))"
  shows "distinct (map ps_pk (performance_stats db1))"
  unfolding update_or_create_table[OF assms]
  using assms(2) fresh_pk_notin[of "map ps_pk (performance_stats db)"] by simp

lemma update_or_create_frame:
  assumes "update_or_create db a s y v = Inr db1"
    and "distinct (map ps_pk (performance_stats db))"
    and "\<not> Q (a, s, y)"
  shows "filter (\<lambda>x. Q (ps_key x)) (performance_stats db1) =
         filter (\<lambda>x. Q (ps_key x)) (performance_stats db)"
proof -
  have "ps_key \<lparr>ps_pk = p, ps_athlete = a, ps_statistic = s, ps_year = y, ps_value = v\<rparr> = (a, s, y)"
    for p by (simp add: ps_key_def)
  then show ?thesis
    unfolding update_or_create_table[OF assms(1,2)] using assms(3)
    by (simp add: filter_set_value)
qed

text \<open>After a successful call the triple has exactly one record, holding the value.\<close>

lemma update_or_create_one:
  assumes "update_or_create db a s y v = Inr db1"
    and "distinct (map ps_pk (performance_stats db))"
  shows "\<exists>r. filter (\<lambda>x. ps_key x = (a, s, y)) (performance_stats db1) = [r] \<and> ps_value r = v"
proof (cases "filter (ps_matches a s y) (performance_stats db)")
  case Nil
  have "filter (\<lambda>x. ps_key x = (a, s, y)) (performance_stats db) = []"
    using Nil by (simp add: ps_matches_filter)
  moreover have "ps_key \<lparr>ps_pk = p, ps_athlete = a, ps_statistic = s, ps_year = y, ps_value = v\<rparr> = (a, s, y)"
    for p by (simp add: ps_key_def)
  ultimately show ?thesis unfolding update_or_create_created[OF assms(1) Nil]
    by simp
next
  case (Cons r rs)
  have rs: "rs = []" using update_or_create_updated[OF assms(1) Cons] by simp
  have one: "filter (\<lambda>x. ps_key x = (a, s, y)) (performance_stats db) = [r]"
    using Cons rs by (simp add: ps_matches_filter)
  have r: "r \<in> set (performance_stats db)" "ps_key r = (a, s, y)"
    using filter_singleton_mem[OF one] by simp_all
  have "(a, s, y) \<in> ps_key ` set (performance_stats db)" using r by force
  then have t: "performance_stats db1 = map (set_value (a, s, y) v) (performance_stats db)"
    using update_or_create_table[OF assms] by simp
  have "filter (\<lambda>x. ps_key x = (a, s, y)) (map (set_value (a, s, y) v) P)
      = map (set_value (a, s, y) v) (filter (\<lambda>x. ps_key x = (a, s, y)) P)" for P
    by (induction P) simp_all
  then have "filter (\<lambda>x. ps_key x = (a, s, y)) (performance_stats db1) = [set_value (a, s, y) v r]"
    unfolding t using one by simp
  then show ?thesis using r(2) by (simp add: set_value_value)
qed

subsection \<open>Resolution is stable\<close>

lemma entry_matches_cong:
  "statistics db1 = statistics db \<Longrightarrow> entry_matches db1 e = entry_matches db e"
  by (cases e) simp_all

lemma entry_writes_cong:
  "statistics db1 = statistics db \<Longrightarrow> entry_writes a y cd db1 e = entry_writes a y cd db e"
  using entry_matches_cong[of db1 db e] by (simp add: entry_writes_def)

lemma writes_cong:
  "statistics db1 = statistics db \<Longrightarrow> writes a y cd db1 es = writes a y cd db es"
proof -
  assume "statistics db1 = statistics db"
  then have "entry_writes a y cd db1 = entry_writes a y cd db"
    using entry_writes_cong[of db1 db a y cd] by (intro ext) simp
  then show ?thesis by (simp add: writes_def)
qed

lemma writes_Cons: "writes a y cd db (e # es) = entry_writes a y cd db e @ writes a y cd db es"
  by (simp add: writes_def)

lemma resolve_entry_matches:
  assumes "resolve_entry db e = Inr (m, db1)"
  shows "entry_matches db1 e = [m]"
proof (cases e)
  case (Specific_entry d) then show ?thesis using assms by simp
next
  case (Universal_entry key label)
  then have g: "get_or_create db label key = Inr (m, db1)" using assms by simp
  show ?thesis using get_or_create_cases[OF g] Universal_entry by auto
qed

lemma resolve_entry_stable:
  assumes "resolve_entry db e = Inr (m, db1)" "entry_matches db e' \<noteq> []"
  shows "entry_matches db1 e' = entry_matches db e'"
proof (cases e')
  case (Specific_entry d) then show ?thesis by simp
next
  case e': (Universal_entry key' label')
  show ?thesis
  proof (cases e)
    case (Specific_entry d) then show ?thesis using assms by simp
  next
    case (Universal_entry key label)
    then have g: "get_or_create db label key = Inr (m, db1)" using assms by simp
    from get_or_create_cases[OF g] show ?thesis
    proof
      assume "filter (\<lambda>s. stat_name s = label \<and> stat_sport s = None) (statistics db) = [m] \<and> db1 = db"
      then show ?thesis by simp
    next
      assume c: "filter (\<lambda>s. stat_name s = label \<and> stat_sport s = None) (statistics db) = [] \<and>
          m = \<lparr>stat_pk = fresh_pk (map stat_pk (statistics db)), stat_name = label,
                short_name = key, stat_sport = None\<rparr> \<and>
          db1 = db\<lparr>statistics := statistics db @ [m]\<rparr>"
      then have "label \<noteq> label'" using assms(2) e' by auto
      then show ?thesis using c e' by simp
    qed
  qed
qed

lemma upsert_step_statistics_cases:
  "statistics (snd (upsert_step a y cd e db)) = statistics db
   \<or> (\<exists>m db1. resolve_entry db e = Inr (m, db1)
              \<and> statistics (snd (upsert_step a y cd e db)) = statistics db1)"
proof (cases rule: upsert_step_cases[of cd e a y db])
  case skip then show ?thesis by simp
next
  case (unresolved x) then show ?thesis by simp
next
  case (failed s db1 x) then show ?thesis by auto
next
  case (written s db1 db2)
  then show ?thesis
    using update_or_create_other(1)[of db1 a "stat_pk s" y "the (entry_value cd e)" db2] by auto
qed

lemma upsert_step_stable:
  assumes "entry_matches db e' \<noteq> []"
  shows "entry_matches (snd (upsert_step a y cd e db)) e' = entry_matches db e'"
  using upsert_step_statistics_cases[of a y cd e db]
proof
  assume "statistics (snd (upsert_step a y cd e db)) = statistics db"
  then show ?thesis by (rule entry_matches_cong)
next
  assume "\<exists>m db1. resolve_entry db e = Inr (m, db1)
              \<and> statistics (snd (upsert_step a y cd e db)) = statistics db1"
  then obtain m db1 where r: "resolve_entry db e = Inr (m, db1)"
    and s: "statistics (snd (upsert_step a y cd e db)) = statistics db1" by blast
  have "entry_matches (snd (upsert_step a y cd e db)) e' = entry_matches db1 e'"
    using s by (rule entry_matches_cong)
  then show ?thesis using resolve_entry_stable[OF r assms] by simp
qed

lemma run_entries_stable:
  "entry_matches db e' \<noteq> [] \<Longrightarrow>
   entry_matches (snd (run_entries a y cd es db)) e' = entry_matches db e'"
proof (induction es arbitrary: db)
  case Nil show ?case by simp
next
  case (Cons e es)
  have st: "entry_matches (snd (upsert_step a y cd e db)) e' = entry_matches db e'"
    using Cons.prems by (rule upsert_step_stable)
  show ?case
  proof (cases rule: run_entries_Cons_cases[of a y cd e db es])
    case (stop x) then show ?thesis using st by simp
  next
    case go
    have "entry_matches (snd (upsert_step a y cd e db)) e' \<noteq> []" using st Cons.prems by simp
    then show ?thesis using Cons.IH[of "snd (upsert_step a y cd e db)"] go st by simp
  qed
qed

subsection \<open>Primary keys stay unique\<close>

lemma upsert_step_distinct:
  assumes "distinct (map ps_pk (performance_stats db))"
  shows "distinct (map ps_pk (performance_stats (snd (upsert_step a y cd e db))))"
proof (cases rule: upsert_step_cases[of cd e a y db])
  case skip then show ?thesis using assms by simp
next
  case (unresolved x) then show ?thesis using assms by simp
next
  case (failed s db1 x) then show ?thesis using assms by simp
next
  case (written s db1 db2)
  have "distinct (map ps_pk (performance_stats db1))" using written(2) assms by simp
  then show ?thesis using update_or_create_distinct[OF written(3)] written(4) by simp
qed

lemma run_entries_distinct:
  "distinct (map ps_pk (performance_stats db)) \<Longrightarrow>
   distinct (map ps_pk (performance_stats (snd (run_entries a y cd es db))))"
proof (induction es arbitrary: db)
  case Nil then show ?case by simp
next
  case (Cons e es)
  have d: "distinct (map ps_pk (performance_stats (snd (upsert_step a y cd e db))))"
    using Cons.prems by (rule upsert_step_distinct)
  show ?case
    by (cases rule: run_entries_Cons_cases[of a y cd e db es]) (simp_all add: d Cons.IH)
qed

subsection \<open>Frame: triples no write names keep their records\<close>

lemma upsert_step_frame:
  assumes "distinct (map ps_pk (performance_stats db))"
    and "\<forall>K\<in>fst ` set (entry_writes a y cd (snd (upsert_step a y cd e db)) e). \<not> Q K"
  shows "filter (\<lambda>x. Q (ps_key x)) (performance_stats (snd (upsert_step a y cd e db))) =
         filter (\<lambda>x. Q (ps_key x)) (performance_stats db)"
proof (cases rule: upsert_step_cases[of cd e a y db])
  case skip then show ?thesis by simp
next
  case (unresolved x) then show ?thesis by simp
next
  case (failed s db1 x) then show ?thesis by simp
next
  case (written m db1 db2)
  have d1: "distinct (map ps_pk (performance_stats db1))" using written(2) assms(1) by simp
  have "statistics db2 = statistics db1" using written(3) by simp
  then have "entry_matches db2 e = [m]"
    using resolve_entry_matches[OF written(2)] entry_matches_cong[of db2 db1 e] by simp
  then have "(a, stat_pk m, y) \<in> fst ` set (entry_writes a y cd db2 e)"
    using written(1) by (simp add: entry_writes_def)
  then have "\<not> Q (a, stat_pk m, y)" using assms(2) written(4) by auto
  then have "filter (\<lambda>x. Q (ps_key x)) (performance_stats db2) =
         filter (\<lambda>x. Q (ps_key x)) (performance_stats db1)"
    using update_or_create_frame[OF written(3) d1] by simp
  then show ?thesis using written(2,4) by simp
qed

lemma entry_writes_stable_subset:
  assumes "statistics db' = statistics db \<or> (\<forall>e'. entry_matches db e' \<noteq> [] \<longrightarrow> entry_matches db' e' = entry_matches db e')"
  shows "set (entry_writes a y cd db e) \<subseteq> set (entry_writes a y cd db' e)"
proof (cases "entry_matches db e = []")
  case True then show ?thesis by (simp add: entry_writes_def)
next
  case False
  then have "entry_matches db' e = entry_matches db e"
    using assms entry_matches_cong[of db' db e] by blast
  then show ?thesis by (simp add: entry_writes_def)
qed

lemma run_entries_frame:
  "distinct (map ps_pk (performance_stats db)) \<Longrightarrow>
   \<forall>K\<in>fst ` set (writes a y cd (snd (run_entries a y cd es db)) es). \<not> Q K \<Longrightarrow>
   filter (\<lambda>x. Q (ps_key x)) (performance_stats (snd (run_entries a y cd es db))) =
   filter (\<lambda>x. Q (ps_key x)) (performance_stats db)"
proof (induction es arbitrary: db)
  case Nil show ?case by simp
next
  case (Cons e es)
  let ?db1 = "snd (upsert_step a y cd e db)"
  let ?db' = "snd (run_entries a y cd (e # es) db)"
  have d1: "distinct (map ps_pk (performance_stats ?db1))"
    using Cons.prems(1) by (rule upsert_step_distinct)
  show ?case
  proof (cases rule: run_entries_Cons_cases[of a y cd e db es])
    case (stop x)
    have "\<forall>K\<in>fst ` set (entry_writes a y cd ?db1 e). \<not> Q K"
      using Cons.prems(2) stop(2) by (simp add: writes_Cons)
    then show ?thesis using upsert_step_frame[OF Cons.prems(1)] stop(2) by simp
  next
    case go
    have db': "?db' = snd (run_entries a y cd es ?db1)" using go(2) by simp
    have "\<forall>K\<in>fst ` set (writes a y cd (snd (run_entries a y cd es ?db1)) es). \<not> Q K"
      using Cons.prems(2) db' by (simp add: writes_Cons)
    then have rest: "filter (\<lambda>x. Q (ps_key x)) (performance_stats ?db') =
        filter (\<lambda>x. Q (ps_key x)) (performance_stats ?db1)"
      using Cons.IH[OF d1] db' by simp
    have "set (entry_writes a y cd ?db1 e) \<subseteq> set (entry_writes a y cd ?db' e)"
      unfolding db' by (rule entry_writes_stable_subset) (simp add: run_entries_stable)
    moreover have "\<forall>K\<in>fst ` set (entry_writes a y cd ?db' e). \<not> Q K"
      using Cons.prems(2) by (simp add: writes_Cons)
    ultimately have "\<forall>K\<in>fst ` set (entry_writes a y cd ?db1 e). \<not> Q K" by blast
    then show ?thesis using upsert_step_frame[OF Cons.prems(1)] rest by simp
  qed
qed

subsection \<open>Statistic keys stay unique; new definitions come from submitted universal pairs\<close>

lemma resolve_entry_distinct:
  assumes "resolve_entry db e = Inr (m, db1)" "distinct (map stat_pk (statistics db))"
  shows "distinct (map stat_pk (statistics db1))"
  using resolve_entry_cases[OF assms(1)]
proof
  assume "db1 = db \<and> (case e of Universal_entry key label \<Rightarrow>
              filter (\<lambda>s. stat_name s = label \<and> stat_sport s = None) (statistics db) = [m]
            | Specific_entry d \<Rightarrow> m = d)"
  then show ?thesis using assms(2) by simp
next
  assume "\<exists>key label. e = Universal_entry key label
            \<and> filter (\<lambda>s. stat_name s = label \<and> stat_sport s = None) (statistics db) = []
            \<and> m = \<lparr>stat_pk = fresh_pk (map stat_pk (statistics db)), stat_name = label,
                    short_name = key, stat_sport = None\<rparr>
            \<and> db1 = db\<lparr>statistics := statistics db @ [m]\<rparr>"
  then obtain key label where
    m: "m = \<lparr>stat_pk = fresh_pk (map stat_pk (statistics db)), stat_name = label,
                    short_name = key, stat_sport = None\<rparr>"
    and db1: "db1 = db\<lparr>statistics := statistics db @ [m]\<rparr>" by blast
  have "stat_pk m \<notin> set (map stat_pk (statistics db))"
    using fresh_pk_notin[of "map stat_pk (statistics db)"] m by simp
  then show ?thesis using assms(2) db1 by simp
qed

lemma upsert_step_distinct_stats:
  assumes "distinct (map stat_pk (statistics db))"
  shows "distinct (map stat_pk (statistics (snd (upsert_step a y cd e db))))"
  using upsert_step_statistics_cases[of a y cd e db]
proof
  assume "statistics (snd (upsert_step a y cd e db)) = statistics db"
  then show ?thesis using assms by simp
next
  assume "\<exists>m db1. resolve_entry db e = Inr (m, db1)
              \<and> statistics (snd (upsert_step a y cd e db)) = statistics db1"
  then obtain m db1 where "resolve_entry db e = Inr (m, db1)"
      "statistics (snd (upsert_step a y cd e db)) = statistics db1" by blast
  then show ?thesis using resolve_entry_distinct[OF _ assms] by simp
qed

lemma run_entries_distinct_stats:
  "distinct (map stat_pk (statistics db)) \<Longrightarrow>
   distinct (map stat_pk (statistics (snd (run_entries a y cd es db))))"
proof (induction es arbitrary: db)
  case Nil then show ?case by simp
next
  case (Cons e es)
  have d: "distinct (map stat_pk (statistics (snd (upsert_step a y cd e db))))"
    using Cons.prems by (rule upsert_step_distinct_stats)
  show ?case
    by (cases rule: run_entries_Cons_cases[of a y cd e db es]) (simp_all add: d Cons.IH)
qed

lemma run_entries_statistics_subset:
  "set (statistics db) \<subseteq> set (statistics (snd (run_entries a y cd es db)))"
  using run_entries_statistics[of a y cd es db] by auto

subsection \<open>Records of a definition that was not submitted\<close>

lemma entry_matches_in_table:
  assumes "m \<in> set (entry_matches db' e)" "e \<in> set (upsert_entries universal db sp)"
    "set (statistics db) \<subseteq> set (statistics db')"
  shows "m \<in> set (statistics db')"
proof (cases e)
  case (Universal_entry key label) then show ?thesis using assms(1) by simp
next
  case (Specific_entry d)
  then have "d \<in> set (sport_specific_stats db sp)"
    using assms(2) by (auto simp: upsert_entries_def universal_entries_def)
  then show ?thesis using assms(1,3) Specific_entry by (auto simp: sport_specific_stats_def)
qed

lemma not_submitted_differs:
  assumes "not_submitted universal sp cd d" "e \<in> set (upsert_entries universal db sp)"
    "truthy (entry_value cd e)" "m \<in> set (entry_matches db' e)"
  shows "m \<noteq> d"
proof (cases e)
  case (Universal_entry key label)
  then have kl: "(key, label) \<in> set universal"
    using assms(2) by (auto simp: upsert_entries_def universal_entries_def)
  have m: "stat_name m = label" "stat_sport m = None" using assms(4) Universal_entry by simp_all
  have t: "truthy (cd key)" using assms(3) Universal_entry by simp
  show ?thesis
  proof
    assume "m = d"
    then have "list_all (\<lambda>(key, label). label \<noteq> stat_name d \<or> \<not> truthy (cd key)) universal"
      using assms(1) m by (simp add: not_submitted_def)
    then show False using kl m t \<open>m = d\<close> by (auto simp: list_all_iff)
  qed
next
  case (Specific_entry d')
  then have d': "d' \<in> set (sport_specific_stats db sp)"
    using assms(2) by (auto simp: upsert_entries_def universal_entries_def)
  have "m = d'" using assms(4) Specific_entry by simp
  moreover have "stat_sport d' = Some sp" using d' by (simp add: sport_specific_stats_def)
  moreover have "truthy (cd (short_name d'))" using assms(3) Specific_entry by simp
  ultimately show ?thesis using assms(1) by (auto simp: not_submitted_def)
qed

lemma upsert_frame:
  assumes "unique_pks db" "d \<in> set (statistics db)" "not_submitted universal sp cd d"
  shows "records_of d (snd (upsert universal a sp y cd db)) = records_of d db"
proof -
  let ?es = "upsert_entries universal db sp"
  let ?db' = "snd (run_entries a y cd ?es db)"
  have sub: "set (statistics db) \<subseteq> set (statistics ?db')" by (rule run_entries_statistics_subset)
  have dist: "distinct (map stat_pk (statistics ?db'))"
    using assms(1) by (simp add: unique_pks_def run_entries_distinct_stats)
  have d: "d \<in> set (statistics ?db')" using assms(2) sub by blast
  have avoid: "\<forall>K\<in>fst ` set (writes a y cd ?db' ?es). \<not> (fst (snd K) = stat_pk d)"
  proof
    fix K assume "K \<in> fst ` set (writes a y cd ?db' ?es)"
    then obtain e m where e: "e \<in> set ?es" "truthy (entry_value cd e)"
        "m \<in> set (entry_matches ?db' e)" and K: "K = (a, stat_pk m, y)"
      by (auto simp: writes_def entry_writes_def split: if_splits)
    have "m \<in> set (statistics ?db')" using entry_matches_in_table[OF e(3) e(1) sub] .
    moreover have "m \<noteq> d" using not_submitted_differs[OF assms(3) e(1) e(2) e(3)] .
    ultimately have "stat_pk m \<noteq> stat_pk d" using dist d by (meson distinct_map inj_on_def)
    then show "\<not> (fst (snd K) = stat_pk d)" using K by simp
  qed
  have "filter (\<lambda>x. fst (snd (ps_key x)) = stat_pk d) (performance_stats ?db') =
        filter (\<lambda>x. fst (snd (ps_key x)) = stat_pk d) (performance_stats db)"
    using assms(1) avoid by (intro run_entries_frame) (simp_all add: unique_pks_def)
  then show ?thesis by (simp add: records_of_def ps_key_def upsert_run)
qed

lemma upsert_step_appended:
  "\<exists>new. statistics (snd (upsert_step a y cd e db)) = statistics db @ new \<and>
     (\<forall>n\<in>set new. truthy (entry_value cd e) \<and> (\<exists>key. e = Universal_entry key (stat_name n)))"
proof -
  have r: "\<exists>new. statistics db1 = statistics db @ new \<and>
     (\<forall>n\<in>set new. \<exists>key. e = Universal_entry key (stat_name n))"
    if "resolve_entry db e = Inr (s, db1)" for s db1
    using resolve_entry_cases[OF that] by auto
  show ?thesis
  proof (cases rule: upsert_step_cases[of cd e a y db])
    case skip then show ?thesis by simp
  next
    case (unresolved x) then show ?thesis by simp
  next
    case (failed s db1 x) then show ?thesis using r[OF failed(2)] by auto
  next
    case (written s db1 db2)
    have "statistics db2 = statistics db1" using written(3) by simp
    then show ?thesis using r[OF written(2)] written(1,4) by auto
  qed
qed

lemma run_entries_appended:
  "\<exists>new. statistics (snd (run_entries a y cd es db)) = statistics db @ new \<and>
     (\<forall>n\<in>set new. \<exists>key. Universal_entry key (stat_name n) \<in> set es \<and> truthy (cd key))"
proof (induction es arbitrary: db)
  case Nil show ?case by simp
next
  case (Cons e es)
  let ?db1 = "snd (upsert_step a y cd e db)"
  obtain new1 where n1: "statistics ?db1 = statistics db @ new1"
      "\<forall>n\<in>set new1. truthy (entry_value cd e) \<and> (\<exists>key. e = Universal_entry key (stat_name n))"
    using upsert_step_appended[of a y cd e db] by blast
  have n1': "\<forall>n\<in>set new1. \<exists>key. Universal_entry key (stat_name n) \<in> set (e # es) \<and> truthy (cd key)"
  proof
    fix n assume "n \<in> set new1"
    then obtain key where "truthy (entry_value cd e)" "e = Universal_entry key (stat_name n)"
      using n1(2) by blast
    then show "\<exists>key. Universal_entry key (stat_name n) \<in> set (e # es) \<and> truthy (cd key)"
      by auto
  qed
  show ?case
  proof (cases rule: run_entries_Cons_cases[of a y cd e db es])
    case (stop x) then show ?thesis using n1(1) n1' by auto
  next
    case go
    obtain new2 where n2: "statistics (snd (run_entries a y cd es ?db1)) = statistics ?db1 @ new2"
        "\<forall>n\<in>set new2. \<exists>key. Universal_entry key (stat_name n) \<in> set es \<and> truthy (cd key)"
      using Cons.IH[of ?db1] by blast
    have "statistics (snd (run_entries a y cd (e # es) db)) = statistics db @ (new1 @ new2)"
      using go n1(1) n2(1) by simp
    moreover have "\<forall>n\<in>set (new1 @ new2). \<exists>key. Universal_entry key (stat_name n) \<in> set (e # es) \<and> truthy (cd key)"
      using n1' n2(2) by auto
    ultimately show ?thesis by blast
  qed
qed

lemma upsert_universal_definitions:
  assumes "list_all (\<lambda>(k, l). l \<noteq> label \<or> \<not> truthy (cd k)) universal"
  shows "universal_definitions label (snd (upsert universal a sp y cd db)) =
         universal_definitions label db"
proof -
  let ?es = "upsert_entries universal db sp"
  let ?db' = "snd (run_entries a y cd ?es db)"
  obtain new where new: "statistics ?db' = statistics db @ new"
    "\<forall>n\<in>set new. \<exists>key. Universal_entry key (stat_name n) \<in> set ?es \<and> truthy (cd key)"
    using run_entries_appended[of a y cd ?es db] by blast
  have "\<forall>n\<in>set new. stat_name n \<noteq> label"
  proof
    fix n assume n: "n \<in> set new"
    then obtain key where "Universal_entry key (stat_name n) \<in> set ?es" "truthy (cd key)"
      using new(2) by blast
    then have "(key, stat_name n) \<in> set universal"
      by (auto simp: upsert_entries_def universal_entries_def)
    then show "stat_name n \<noteq> label" using assms \<open>truthy (cd key)\<close> by (auto simp: list_all_iff)
  qed
  then have "filter (\<lambda>s. stat_name s = label \<and> stat_sport s = None) new = []"
    by (simp add: filter_empty_conv)
  then show ?thesis by (simp add: universal_definitions_def upsert_run new(1))
qed

lemma upsert_prefix:
  "take (length (statistics db)) (statistics (snd (upsert universal a sp y cd db))) = statistics db"
proof -
  obtain new where "statistics (snd (run_entries a y cd (upsert_entries universal db sp) db))
      = statistics db @ new"
    using run_entries_statistics[of a y cd "upsert_entries universal db sp" db] by blast
  then show ?thesis by (simp add: upsert_run)
qed

lemma manage_athlete_stats_prefix:
  "take (length (statistics db))
     (statistics (snd (manage_athlete_stats universal today request pk db))) = statistics db"
  using manage_athlete_stats_db[of universal today request pk db] upsert_prefix[of db universal]
  by auto

lemma stats_post_not_rejected:
  "fst (stats_post universal request pk athlete sp db) \<noteq> Redirect_athlete_detail pk m
   \<or> (\<exists>year. m = Success_updated year)"
proof (cases "cleaned_data (ScorecardForm universal db (Some (req_post request)) Map.empty sp)")
  case None then show ?thesis by (simp add: stats_post_def)
next
  case (Some p)
  obtain y cd where p: "p = (y, cd)" by (cases p)
  obtain r db1 where u: "upsert universal (athlete_pk athlete) sp y cd db = (r, db1)"
    by (cases "upsert universal (athlete_pk athlete) sp y cd db")
  show ?thesis using Some p u by (cases r) (auto simp add: stats_post_def)
qed

lemma stats_get_not_rejected:
  "fst (stats_get universal today athlete sp db) \<noteq> Redirect_athlete_detail pk m"
  by (simp add: stats_get_def split: sum.splits)

lemma unique_pks_ex_scored: "unique_pks ex_scored"
  by (simp add: unique_pks_def ex_scored_def ex_db_def ex_goals_def)

lemma filter_removeAll_other: "\<not> P d \<Longrightarrow> filter P (removeAll d xs) = filter P xs"
  by (induction xs) auto

lemma sport_specific_stats_without:
  "stat_sport d \<noteq> Some sp \<Longrightarrow>
   sport_specific_stats (without_statistic d db) sp = sport_specific_stats db sp"
  by (simp add: sport_specific_stats_def without_statistic_def filter_removeAll_other)

lemma unique_pks_ex_db: "unique_pks ex_db"
  by (simp add: unique_pks_def ex_db_def ex_goals_def)

lemma delete_users_gone:
  assumes "x \<in> set (users db)" "x \<notin> set (users (snd (delete_users pks db)))"
  shows "user_pk x \<in> set pks"
  using assms by (auto simp: delete_users_def Let_def)

lemma delete_users_athletes_gone:
  assumes "x \<in> set (athletes db)" "x \<notin> set (athletes (snd (delete_users pks db)))"
  shows "athlete_user_id x \<in> set pks"
  using assms by (auto simp: delete_users_def Let_def)

lemma athlete_list_post_cases:
  assumes "req_user request = Some u"
  shows "snd (athlete_list_post request db) = db \<or>
    (\<exists>pks. set pks \<subseteq> athlete_user_id ` set (base_queryset u db) \<and>
        snd (athlete_list_post request db) = snd (delete_users pks db))"
proof (cases "None \<in> set (req_athlete_ids request)")
  case True then show ?thesis using assms by (simp add: athlete_list_post_def)
next
  case False
  let ?pks = "map athlete_user_id
                (filter (\<lambda>a. athlete_user_id a \<in> set (map the (req_athlete_ids request)))
                   (base_queryset u db))"
  have sub: "set ?pks \<subseteq> athlete_user_id ` set (base_queryset u db)" by auto
  show ?thesis
  proof (cases "?pks = []")
    case True
    then show ?thesis using assms False by (simp add: athlete_list_post_def Let_def)
  next
    case ne: False
    obtain n db1 where d: "delete_users ?pks db = (n, db1)" by (cases "delete_users ?pks db")
    have "snd (athlete_list_post request db) = snd (delete_users ?pks db)"
      using assms False ne d by (simp add: athlete_list_post_def Let_def)
    then show ?thesis using sub by blast
  qed
qed

lemma base_queryset_cases:
  "base_queryset u db = athletes db \<or> base_queryset u db = [] \<or>
   (\<exists>t. base_queryset u db = filter (on_team t) (athletes db))"
  unfolding base_queryset_def
  by (cases "user_role u"; cases "user_coach u"; cases "user_athlete u";
      cases "coach_team (the (user_coach u))"; cases "athlete_team (the (user_athlete u))") auto

lemma base_queryset_subset: "set (base_queryset u db) \<subseteq> set (athletes db)"
  using base_queryset_cases[of u db] by auto

subsection \<open>Applying a list of writes to a record\<close>

lemma apply_writes_Nil [simp]: "apply_writes [] x = x"
  by (simp add: apply_writes_def)

lemma apply_writes_Cons [simp]: "apply_writes ((K, v) # ws) x = apply_writes ws (set_value K v x)"
  by (simp add: apply_writes_def)

lemma apply_writes_append [simp]: "apply_writes (ws @ ws') x = apply_writes ws' (apply_writes ws x)"
  by (simp add: apply_writes_def)

lemma set_value_update: "(set_value K v x)\<lparr>ps_value := v'\<rparr> = x\<lparr>ps_value := v'\<rparr>"
  by (simp add: set_value_def)

lemma ps_key_update [simp]: "ps_key (x\<lparr>ps_value := v\<rparr>) = ps_key x"
  by (simp add: ps_key_def)

lemma apply_writes_last:
  "apply_writes ws x =
     (case map_of (rev ws) (ps_key x) of None \<Rightarrow> x | Some v \<Rightarrow> x\<lparr>ps_value := v\<rparr>)"
proof (induction ws arbitrary: x)
  case Nil show ?case by simp
next
  case (Cons w ws)
  obtain K v where w: "w = (K, v)" by (cases w)
  show ?case
  proof (cases "map_of (rev ws) (ps_key x)")
    case (Some v')
    then show ?thesis unfolding w
      by (simp add: Cons.IH map_of_append map_add_def set_value_update)
  next
    case None
    show ?thesis
    proof (cases "ps_key x = K")
      case True
      then have "map_of (rev ws) K = None" using None by simp
      then show ?thesis unfolding w using True
        by (simp add: Cons.IH map_of_append map_add_def set_value_def)
    next
      case False
      then show ?thesis unfolding w using None
        by (simp add: Cons.IH map_of_append map_add_def set_value_def)
    qed
  qed
qed

lemma apply_writes_forgets:
  "ps_key x \<in> fst ` set ws \<Longrightarrow> apply_writes ws (x\<lparr>ps_value := v\<rparr>) = apply_writes ws x"
proof -
  assume "ps_key x \<in> fst ` set ws"
  then have "map_of (rev ws) (ps_key x) \<noteq> None" by (simp add: map_of_eq_None_iff)
  then obtain v' where "map_of (rev ws) (ps_key x) = Some v'" by blast
  then show ?thesis by (simp add: apply_writes_last)
qed

subsection \<open>A triple with one record keeps exactly one\<close>

lemma filter_map_set_value:
  "filter (\<lambda>x. ps_key x = K) (map (set_value K' v) P) =
   map (set_value K' v) (filter (\<lambda>x. ps_key x = K) P)"
  by (induction P) simp_all

lemma update_or_create_keeps_one:
  assumes "update_or_create db a s y v = Inr db1"
    and "distinct (map ps_pk (performance_stats db))"
    and "filter (\<lambda>x. ps_key x = K) (performance_stats db) = [r]"
  shows "\<exists>r'. filter (\<lambda>x. ps_key x = K) (performance_stats db1) = [r']"
proof -
  have r: "r \<in> set (performance_stats db)" "ps_key r = K"
    using filter_singleton_mem[OF assms(3)] by simp_all
  have new: "ps_key \<lparr>ps_pk = p, ps_athlete = a, ps_statistic = s, ps_year = y, ps_value = v\<rparr> = (a, s, y)"
    for p by (simp add: ps_key_def)
  show ?thesis
  proof (cases "(a, s, y) \<in> ps_key ` set (performance_stats db)")
    case True
    then show ?thesis unfolding update_or_create_table[OF assms(1,2)]
      using assms(3) by (simp add: filter_map_set_value)
  next
    case False
    then have "K \<noteq> (a, s, y)" using r by force
    then show ?thesis unfolding update_or_create_table[OF assms(1,2)]
      using assms(3) False new by (simp add: filter_map_set_value)
  qed
qed

lemma upsert_step_keeps_one:
  assumes "distinct (map ps_pk (performance_stats db))"
    and "filter (\<lambda>x. ps_key x = K) (performance_stats db) = [r]"
  shows "\<exists>r'. filter (\<lambda>x. ps_key x = K) (performance_stats (snd (upsert_step a y cd e db))) = [r']"
proof (cases rule: upsert_step_cases[of cd e a y db])
  case skip then show ?thesis using assms(2) by simp
next
  case (unresolved x) then show ?thesis using assms(2) by simp
next
  case (failed s db1 x) then show ?thesis using assms(2) by simp
next
  case (written s db1 db2)
  have "distinct (map ps_pk (performance_stats db1))"
    "filter (\<lambda>x. ps_key x = K) (performance_stats db1) = [r]"
    using written(2) assms by simp_all
  then show ?thesis using update_or_create_keeps_one[OF written(3)] written(4) by simp
qed

lemma run_entries_keeps_one:
  "distinct (map ps_pk (performance_stats db)) \<Longrightarrow>
   filter (\<lambda>x. ps_key x = K) (performance_stats db) = [r] \<Longrightarrow>
   \<exists>r'. filter (\<lambda>x. ps_key x = K) (performance_stats (snd (run_entries a y cd es db))) = [r']"
proof (induction es arbitrary: db r)
  case Nil then show ?case by simp
next
  case (Cons e es)
  let ?db1 = "snd (upsert_step a y cd e db)"
  obtain r1 where r1: "filter (\<lambda>x. ps_key x = K) (performance_stats ?db1) = [r1]"
    using upsert_step_keeps_one[OF Cons.prems] by blast
  have d1: "distinct (map ps_pk (performance_stats ?db1))"
    using Cons.prems(1) by (rule upsert_step_distinct)
  show ?case
  proof (cases rule: run_entries_Cons_cases[of a y cd e db es])
    case (stop x) then show ?thesis using r1 by simp
  next
    case go then show ?thesis using Cons.IH[OF d1 r1] by simp
  qed
qed

subsection \<open>After a run without exception the database is settled\<close>

lemma upsert_step_written:
  assumes "fst (upsert_step a y cd e db) = None" "truthy (entry_value cd e)"
  obtains m db1 where "resolve_entry db e = Inr (m, db1)"
    "update_or_create db1 a (stat_pk m) y (the (entry_value cd e)) = Inr (snd (upsert_step a y cd e db))"
proof (cases rule: upsert_step_cases[of cd e a y db])
  case skip then show ?thesis using assms by simp
next
  case (unresolved x) then show ?thesis using assms by simp
next
  case (failed s db1 x) then show ?thesis using assms by simp
next
  case (written s db1 db2) then show ?thesis using that by simp
qed

lemma upsert_step_settles:
  assumes "fst (upsert_step a y cd e db) = None" "truthy (entry_value cd e)"
    and "distinct (map ps_pk (performance_stats db))"
  shows "\<exists>m r. entry_matches (snd (upsert_step a y cd e db)) e = [m] \<and>
           filter (\<lambda>x. ps_key x = (a, stat_pk m, y)) (performance_stats (snd (upsert_step a y cd e db))) = [r] \<and>
           ps_value r = the (entry_value cd e)"
proof -
  obtain m db1 where r: "resolve_entry db e = Inr (m, db1)"
    and u: "update_or_create db1 a (stat_pk m) y (the (entry_value cd e)) = Inr (snd (upsert_step a y cd e db))"
    using upsert_step_written[OF assms(1,2)] by blast
  have d1: "distinct (map ps_pk (performance_stats db1))" using r assms(3) by simp
  have "statistics (snd (upsert_step a y cd e db)) = statistics db1" using u by simp
  then have "entry_matches (snd (upsert_step a y cd e db)) e = [m]"
    using resolve_entry_matches[OF r] entry_matches_cong[of "snd (upsert_step a y cd e db)" db1 e]
    by simp
  then show ?thesis using update_or_create_one[OF u d1] by blast
qed

lemma run_entries_settled:
  "fst (run_entries a y cd es db) = None \<Longrightarrow> distinct (map ps_pk (performance_stats db)) \<Longrightarrow>
   settled a y cd (snd (run_entries a y cd es db)) es"
proof (induction es arbitrary: db)
  case Nil show ?case by (simp add: settled_def)
next
  case (Cons e es)
  let ?db1 = "snd (upsert_step a y cd e db)"
  let ?db' = "snd (run_entries a y cd es ?db1)"
  have d1: "distinct (map ps_pk (performance_stats ?db1))"
    using Cons.prems(2) by (rule upsert_step_distinct)
  show ?case
  proof (cases rule: run_entries_Cons_cases[of a y cd e db es])
    case (stop x) then show ?thesis using Cons.prems(1) by simp
  next
    case go
    have run: "fst (run_entries a y cd es ?db1) = None" using Cons.prems(1) go(2) by simp
    have rest: "settled a y cd ?db' es" using Cons.IH[OF run d1] .
    have first: "\<exists>m r. entry_matches ?db' e = [m] \<and>
               filter (\<lambda>x. ps_key x = (a, stat_pk m, y)) (performance_stats ?db') = [r]"
      if t: "truthy (entry_value cd e)"
    proof -
      obtain m r where m: "entry_matches ?db1 e = [m]"
        and r: "filter (\<lambda>x. ps_key x = (a, stat_pk m, y)) (performance_stats ?db1) = [r]"
        using upsert_step_settles[OF go(1) t Cons.prems(2)] by blast
      have "entry_matches ?db' e = [m]" using run_entries_stable[of ?db1 e a y cd es] m by simp
      then show ?thesis using run_entries_keeps_one[OF d1 r, of a y cd es] by blast
    qed
    show ?thesis unfolding go(2) using rest first by (simp add: settled_def)
  qed
qed

subsection \<open>After a run without exception every record holds the last value written to its triple\<close>

lemma run_entries_at_rest:
  "fst (run_entries a y cd es db) = None \<Longrightarrow> distinct (map ps_pk (performance_stats db)) \<Longrightarrow>
   x \<in> set (performance_stats (snd (run_entries a y cd es db))) \<Longrightarrow>
   apply_writes (writes a y cd (snd (run_entries a y cd es db)) es) x = x"
proof (induction es arbitrary: db)
  case Nil show ?case by (simp add: writes_def)
next
  case (Cons e es)
  let ?db1 = "snd (upsert_step a y cd e db)"
  let ?db' = "snd (run_entries a y cd es ?db1)"
  let ?ws = "writes a y cd ?db' es"
  have d1: "distinct (map ps_pk (performance_stats ?db1))"
    using Cons.prems(2) by (rule upsert_step_distinct)
  show ?case
  proof (cases rule: run_entries_Cons_cases[of a y cd e db es])
    case (stop x) then show ?thesis using Cons.prems(1) by simp
  next
    case go
    have run: "fst (run_entries a y cd es ?db1) = None" using Cons.prems(1) go(2) by simp
    have x: "x \<in> set (performance_stats ?db')" using Cons.prems(3) go(2) by simp
    have rest: "apply_writes ?ws x = x" using Cons.IH[OF run d1 x] .
    show ?thesis
    proof (cases "truthy (entry_value cd e)")
      case False
      then show ?thesis unfolding go(2) using rest by (simp add: writes_Cons entry_writes_def)
    next
      case True
      obtain m r where m: "entry_matches ?db1 e = [m]"
        and r: "filter (\<lambda>x. ps_key x = (a, stat_pk m, y)) (performance_stats ?db1) = [r]"
        and v: "ps_value r = the (entry_value cd e)"
        using upsert_step_settles[OF go(1) True Cons.prems(2)] by blast
      let ?K = "(a, stat_pk m, y)"
      let ?v = "the (entry_value cd e)"
      have "entry_matches ?db' e = [m]" using run_entries_stable[of ?db1 e a y cd es] m by simp
      then have ew: "entry_writes a y cd ?db' e = [(?K, ?v)]" using True by (simp add: entry_writes_def)
      have "apply_writes ?ws (set_value ?K ?v x) = x"
      proof (cases "ps_key x = ?K")
        case False then show ?thesis using rest by (simp add: set_value_other)
      next
        case key: True
        show ?thesis
        proof (cases "?K \<in> fst ` set ?ws")
          case True
          then have "apply_writes ?ws (x\<lparr>ps_value := ?v\<rparr>) = apply_writes ?ws x"
            using key apply_writes_forgets[of x ?ws ?v] by simp
          then show ?thesis using key rest by (simp add: set_value_def)
        next
          case False
          then have "\<forall>K\<in>fst ` set ?ws. \<not> (K = ?K)" by blast
          then have "filter (\<lambda>x. ps_key x = ?K) (performance_stats ?db') =
                     filter (\<lambda>x. ps_key x = ?K) (performance_stats ?db1)"
            using run_entries_frame[OF d1, of a y cd es "\<lambda>K. K = ?K"] by simp
          moreover have "x \<in> set (filter (\<lambda>x. ps_key x = ?K) (performance_stats ?db'))"
            using x key by simp
          ultimately have "x \<in> set (filter (\<lambda>x. ps_key x = ?K) (performance_stats ?db1))"
            by simp
          then have "x = r" unfolding r by simp
          then have "set_value ?K ?v x = x" using v by (simp add: set_value_def)
          then show ?thesis using rest by simp
        qed
      qed
      then show ?thesis unfolding go(2) by (simp add: writes_Cons ew)
    qed
  qed
qed

subsection \<open>A run on a settled database only sets values\<close>

lemma entry_matches_resolve:
  assumes "entry_matches db e = [m]"
  shows "resolve_entry db e = Inr (m, db)"
proof (cases e)
  case (Universal_entry key label)
  then show ?thesis using assms by (simp add: get_or_create_def)
next
  case (Specific_entry d)
  then show ?thesis using assms by simp
qed

lemma update_or_create_settled:
  assumes "distinct (map ps_pk (performance_stats db))"
    and "filter (\<lambda>x. ps_key x = (a, s, y)) (performance_stats db) = [r]"
  shows "update_or_create db a s y v =
           Inr (db\<lparr>performance_stats := map (set_value (a, s, y) v) (performance_stats db)\<rparr>)"
proof -
  have one: "filter (ps_matches a s y) (performance_stats db) = [r]"
    using assms(2) by (simp add: ps_matches_filter)
  obtain db1 where u: "update_or_create db a s y v = Inr db1"
    unfolding update_or_create_def one by simp
  have "db1 = db\<lparr>performance_stats :=
      map (\<lambda>x. if ps_pk x = ps_pk r then x\<lparr>ps_value := v\<rparr> else x) (performance_stats db)\<rparr>"
    using update_or_create_updated[OF u one] by simp
  then have eq: "db1 = db\<lparr>performance_stats := performance_stats db1\<rparr>" by simp
  have "(a, s, y) \<in> ps_key ` set (performance_stats db)"
    using filter_singleton_mem[OF assms(2)] by force
  then have "performance_stats db1 = map (set_value (a, s, y) v) (performance_stats db)"
    using update_or_create_table[OF u assms(1)] by simp
  then show ?thesis using u eq by simp
qed

lemma settled_Cons:
  "settled a y cd db (e # es) \<longleftrightarrow>
     (truthy (entry_value cd e) \<longrightarrow>
        (\<exists>m r. entry_matches db e = [m] \<and>
               filter (\<lambda>x. ps_key x = (a, stat_pk m, y)) (performance_stats db) = [r])) \<and>
     settled a y cd db es"
  by (simp add: settled_def)

lemma settled_set_value:
  assumes "settled a y cd db es"
  shows "settled a y cd (db\<lparr>performance_stats := map (set_value K v) (performance_stats db)\<rparr>) es"
  unfolding settled_def
proof (intro ballI impI)
  fix e assume "e \<in> set es" "truthy (entry_value cd e)"
  then obtain m r where m: "entry_matches db e = [m]"
    and r: "filter (\<lambda>x. ps_key x = (a, stat_pk m, y)) (performance_stats db) = [r]"
    using assms unfolding settled_def by blast
  let ?db = "db\<lparr>performance_stats := map (set_value K v) (performance_stats db)\<rparr>"
  have "entry_matches ?db e = [m]" using m entry_matches_cong[of ?db db e] by simp
  moreover have "filter (\<lambda>x. ps_key x = (a, stat_pk m, y)) (performance_stats ?db)
      = [set_value K v r]" using r by (simp add: filter_map_set_value)
  ultimately show "\<exists>m r. entry_matches ?db e = [m] \<and>
        filter (\<lambda>x. ps_key x = (a, stat_pk m, y)) (performance_stats ?db) = [r]" by blast
qed

lemma run_entries_on_settled:
  "distinct (map ps_pk (performance_stats db)) \<Longrightarrow> settled a y cd db es \<Longrightarrow>
   run_entries a y cd es db =
     (None, db\<lparr>performance_stats := map (apply_writes (writes a y cd db es)) (performance_stats db)\<rparr>)"
proof (induction es arbitrary: db)
  case Nil show ?case by (simp add: writes_def)
next
  case (Cons e es)
  have rest: "settled a y cd db es" using Cons.prems(2) by (simp add: settled_Cons)
  show ?case
  proof (cases "truthy (entry_value cd e)")
    case False
    then have "upsert_step a y cd e db = (None, db)" by (simp add: upsert_step_def)
    moreover have "writes a y cd db (e # es) = writes a y cd db es"
      using False by (simp add: writes_Cons entry_writes_def)
    ultimately show ?thesis using Cons.IH[OF Cons.prems(1) rest] by simp
  next
    case True
    then obtain m r where m: "entry_matches db e = [m]"
      and r: "filter (\<lambda>x. ps_key x = (a, stat_pk m, y)) (performance_stats db) = [r]"
      using Cons.prems(2) unfolding settled_Cons by blast
    let ?K = "(a, stat_pk m, y)"
    let ?v = "the (entry_value cd e)"
    let ?db1 = "db\<lparr>performance_stats := map (set_value ?K ?v) (performance_stats db)\<rparr>"
    have res: "resolve_entry db e = Inr (m, db)" by (rule entry_matches_resolve[OF m])
    have uoc: "update_or_create db a (stat_pk m) y ?v = Inr ?db1"
      by (rule update_or_create_settled[OF Cons.prems(1) r])
    have step: "upsert_step a y cd e db = (None, ?db1)"
      unfolding upsert_step_def res using True uoc by simp
    have d1: "distinct (map ps_pk (performance_stats ?db1))" using Cons.prems(1) by simp
    have s1: "settled a y cd ?db1 es" using rest by (rule settled_set_value)
    have w1: "writes a y cd ?db1 es = writes a y cd db es" by (rule writes_cong) simp
    have ew: "entry_writes a y cd db e = [(?K, ?v)]" using True m by (simp add: entry_writes_def)
    have "run_entries a y cd (e # es) db = run_entries a y cd es ?db1" using step by simp
    also have "\<dots> = (None, ?db1\<lparr>performance_stats :=
        map (apply_writes (writes a y cd ?db1 es)) (performance_stats ?db1)\<rparr>)"
      using Cons.IH[OF d1 s1] .
    also have "\<dots> = (None, db\<lparr>performance_stats :=
        map (apply_writes (writes a y cd db (e # es))) (performance_stats db)\<rparr>)"
    proof -
      have "apply_writes (writes a y cd db es) \<circ> set_value ?K ?v
          = apply_writes (writes a y cd db (e # es))"
        by (rule ext) (simp add: writes_Cons ew)
      then show ?thesis unfolding w1 by simp
    qed
    finally show ?thesis .
  qed
qed

subsection \<open>Running the same entries again changes nothing\<close>

lemma run_entries_again:
  assumes "distinct (map ps_pk (performance_stats db))" "settled a y cd db es"
    and "\<forall>x\<in>set (performance_stats db). apply_writes (writes a y cd db es) x = x"
  shows "run_entries a y cd es db = (None, db)"
proof -
  have "map (apply_writes (writes a y cd db es)) (performance_stats db) = performance_stats db"
    using assms(3) by (simp add: map_idI)
  then show ?thesis using run_entries_on_settled[OF assms(1,2)] by simp
qed

lemma run_entries_idempotent_success:
  assumes "fst (run_entries a y cd es db) = None" "distinct (map ps_pk (performance_stats db))"
  shows "run_entries a y cd es (snd (run_entries a y cd es db)) = run_entries a y cd es db"
proof -
  let ?db' = "snd (run_entries a y cd es db)"
  have "run_entries a y cd es ?db' = (None, ?db')"
    using run_entries_distinct[OF assms(2)] run_entries_settled[OF assms]
      run_entries_at_rest[OF assms]
    by (intro run_entries_again) simp_all
  then show ?thesis using assms(1) by (simp add: prod_eq_iff)
qed

subsection \<open>A run that stops at an exception, run again, stops at the same place\<close>

lemma run_entries_failure:
  "run_entries a y cd es db = (Some x, db') \<Longrightarrow>
   \<exists>pre e post. es = pre @ e # post \<and> fst (run_entries a y cd pre db) = None \<and>
      upsert_step a y cd e (snd (run_entries a y cd pre db)) = (Some x, db')"
proof (induction es arbitrary: db)
  case Nil then show ?case by simp
next
  case (Cons e es)
  show ?case
  proof (cases rule: run_entries_Cons_cases[of a y cd e db es])
    case (stop x')
    then have "upsert_step a y cd e db = (Some x, db')" using Cons.prems by simp
    then have "e # es = [] @ e # es \<and> fst (run_entries a y cd [] db) = None \<and>
      upsert_step a y cd e (snd (run_entries a y cd [] db)) = (Some x, db')" by simp
    then show ?thesis by blast
  next
    case go
    let ?db1 = "snd (upsert_step a y cd e db)"
    have "run_entries a y cd es ?db1 = (Some x, db')" using go(2) Cons.prems by simp
    then obtain pre e' post where p: "es = pre @ e' # post"
      "fst (run_entries a y cd pre ?db1) = None"
      "upsert_step a y cd e' (snd (run_entries a y cd pre ?db1)) = (Some x, db')"
      using Cons.IH[of ?db1] by blast
    have r: "run_entries a y cd (e # pre) db = run_entries a y cd pre ?db1"
      using run_entries_Cons_cases[of a y cd e db pre] go(1) by (metis option.distinct(1))
    have "e # es = (e # pre) @ e' # post \<and> fst (run_entries a y cd (e # pre) db) = None \<and>
      upsert_step a y cd e' (snd (run_entries a y cd (e # pre) db)) = (Some x, db')"
      using p r by simp
    then show ?thesis by blast
  qed
qed

lemma upsert_step_failure:
  assumes "upsert_step a y cd e db = (Some x, db')"
  shows "upsert_step a y cd e db' = (Some x, db') \<and> performance_stats db' = performance_stats db"
proof (cases rule: upsert_step_cases[of cd e a y db])
  case skip then show ?thesis using assms by simp
next
  case (unresolved x') then show ?thesis using assms by simp
next
  case (written s db1 db2) then show ?thesis using assms by simp
next
  case (failed m db1 x')
  then have eq: "db' = db1" "x' = x" using assms by simp_all
  have res: "resolve_entry db1 e = Inr (m, db1)"
    by (rule entry_matches_resolve[OF resolve_entry_matches[OF failed(2)]])
  have "upsert_step a y cd e db1 = (Some x', db1)"
    unfolding upsert_step_def res using failed(1,3) by simp
  then show ?thesis using eq failed(2) by simp
qed

lemma settled_transfer:
  assumes "settled a y cd db es" "performance_stats db' = performance_stats db"
    and "\<And>e. entry_matches db e \<noteq> [] \<Longrightarrow> entry_matches db' e = entry_matches db e"
  shows "settled a y cd db' es \<and> writes a y cd db' es = writes a y cd db es"
proof
  show "settled a y cd db' es"
    unfolding settled_def
  proof (intro ballI impI)
    fix e assume "e \<in> set es" "truthy (entry_value cd e)"
    then obtain m r where m: "entry_matches db e = [m]"
      and r: "filter (\<lambda>x. ps_key x = (a, stat_pk m, y)) (performance_stats db) = [r]"
      using assms(1) unfolding settled_def by blast
    have "entry_matches db' e = [m]" using assms(3)[of e] m by simp
    then show "\<exists>m r. entry_matches db' e = [m] \<and>
        filter (\<lambda>x. ps_key x = (a, stat_pk m, y)) (performance_stats db') = [r]"
      using r assms(2) by auto
  qed
  have "entry_writes a y cd db' e = entry_writes a y cd db e" if e: "e \<in> set es" for e
  proof (cases "truthy (entry_value cd e)")
    case False then show ?thesis by (simp add: entry_writes_def)
  next
    case True
    then obtain m where "entry_matches db e = [m]"
      using assms(1) e unfolding settled_def by blast
    then have "entry_matches db' e = entry_matches db e" using assms(3)[of e] by simp
    then show ?thesis by (simp add: entry_writes_def)
  qed
  then have "map (entry_writes a y cd db') es = map (entry_writes a y cd db) es"
    by (intro map_cong) simp_all
  then show "writes a y cd db' es = writes a y cd db es" unfolding writes_def by (rule arg_cong)
qed

lemma run_entries_idempotent_failure:
  assumes "run_entries a y cd es db = (Some x, db')"
    and "distinct (map ps_pk (performance_stats db))"
  shows "run_entries a y cd es db' = (Some x, db')"
proof -
  obtain pre e post where es: "es = pre @ e # post"
    and ok: "fst (run_entries a y cd pre db) = None"
    and st: "upsert_step a y cd e (snd (run_entries a y cd pre db)) = (Some x, db')"
    using run_entries_failure[OF assms(1)] by blast
  let ?dbp = "snd (run_entries a y cd pre db)"
  have dp: "distinct (map ps_pk (performance_stats ?dbp))"
    using assms(2) by (rule run_entries_distinct)
  have sp: "settled a y cd ?dbp pre" using ok assms(2) by (rule run_entries_settled)
  have again: "upsert_step a y cd e db' = (Some x, db')"
    and perf: "performance_stats db' = performance_stats ?dbp"
    using upsert_step_failure[OF st] by simp_all
  have stable: "entry_matches db' e' = entry_matches ?dbp e'" if "entry_matches ?dbp e' \<noteq> []" for e'
    using upsert_step_stable[OF that, of a y cd e] st by simp
  have tr: "settled a y cd db' pre" "writes a y cd db' pre = writes a y cd ?dbp pre"
    using settled_transfer[OF sp perf stable] by simp_all
  have rest: "\<forall>x\<in>set (performance_stats db'). apply_writes (writes a y cd db' pre) x = x"
    unfolding tr(2) perf using run_entries_at_rest[OF ok assms(2)] by blast
  have d': "distinct (map ps_pk (performance_stats db'))" using dp perf by simp
  have "run_entries a y cd pre db' = (None, db')"
    using d' tr(1) rest by (rule run_entries_again)
  then show ?thesis unfolding es by (simp add: run_entries_append again)
qed

lemma run_entries_idempotent:
  assumes "distinct (map ps_pk (performance_stats db))"
  shows "run_entries a y cd es (snd (run_entries a y cd es db)) = run_entries a y cd es db"
proof (cases "fst (run_entries a y cd es db)")
  case None then show ?thesis using assms by (rule run_entries_idempotent_success)
next
  case (Some x)
  then have "run_entries a y cd es db = (Some x, snd (run_entries a y cd es db))"
    by (simp add: prod_eq_iff)
  then show ?thesis using run_entries_idempotent_failure[OF _ assms] by metis
qed

lemma upsert_idempotent:
  assumes "distinct (map ps_pk (performance_stats db))"
  shows "upsert universal a sp y cd (snd (upsert universal a sp y cd db)) =
         upsert universal a sp y cd db"
proof -
  let ?es = "upsert_entries universal db sp"
  have "upsert_entries universal (snd (run_entries a y cd ?es db)) sp = ?es"
    by (simp add: upsert_entries_def run_entries_sport_specific_stats)
  then show ?thesis using run_entries_idempotent[OF assms, of a y cd ?es]
    by (simp add: upsert_run)
qed

lemma upsert_other [simp]:
  "athletes (snd (upsert universal a sp y cd db)) = athletes db"
  "users (snd (upsert universal a sp y cd db)) = users db"
  "sport_specific_stats (snd (upsert universal a sp y cd db)) sp' = sport_specific_stats db sp'"
  by (simp_all add: upsert_run run_entries_sport_specific_stats)

lemma ScorecardForm_cong:
  "sport_specific_stats db' sp = sport_specific_stats db sp \<Longrightarrow>
   ScorecardForm universal db' data ini sp = ScorecardForm universal db data ini sp"
  by (simp add: ScorecardForm_def)

lemma stats_post_idempotent:
  assumes "distinct (map ps_pk (performance_stats db))"
  shows "stats_post universal request pk athlete sp (snd (stats_post universal request pk athlete sp db))
         = stats_post universal request pk athlete sp db"
proof (cases "cleaned_data (ScorecardForm universal db (Some (req_post request)) Map.empty sp)")
  case None
  then show ?thesis by (simp add: stats_post_def)
next
  case (Some p)
  obtain year cd where p: "p = (year, cd)" by (cases p)
  let ?u = "upsert universal (athlete_pk athlete) sp year cd db"
  have db': "snd (stats_post universal request pk athlete sp db) = snd ?u"
    using Some p by (cases ?u; cases "fst ?u") (simp_all add: stats_post_def)
  have form: "ScorecardForm universal (snd ?u) (Some (req_post request)) Map.empty sp
      = ScorecardForm universal db (Some (req_post request)) Map.empty sp"
    by (rule ScorecardForm_cong) simp
  have "stats_post universal request pk athlete sp (snd ?u) =
        (case upsert universal (athlete_pk athlete) sp year cd (snd ?u) of
           (Some e, db1) \<Rightarrow> (Server_error e, db1)
         | (None, db1) \<Rightarrow> (Redirect_athlete_detail pk (Success_updated year), db1))"
    using Some p by (simp add: stats_post_def form)
  also have "\<dots> = stats_post universal request pk athlete sp db"
    using Some p by (simp add: stats_post_def upsert_idempotent[OF assms])
  finally show ?thesis unfolding db' .
qed

lemma manage_athlete_stats_athletes [simp]:
  "athletes (snd (manage_athlete_stats universal today request pk db)) = athletes db"
  using manage_athlete_stats_db[of universal today request pk db] by auto

lemma manage_athlete_stats_idempotent:
  assumes "distinct (map ps_pk (performance_stats db))" "req_method request = POST"
  shows "manage_athlete_stats universal today request pk
           (snd (manage_athlete_stats universal today request pk db))
         = manage_athlete_stats universal today request pk db"
proof (cases "req_user request")
  case None then show ?thesis by (simp add: manage_athlete_stats_def)
next
  case u: (Some u)
  show ?thesis
  proof (cases "find (\<lambda>a. athlete_pk a = pk) (athletes db)")
    case None then show ?thesis using u by (simp add: manage_athlete_stats_def)
  next
    case a: (Some athlete)
    show ?thesis
    proof (cases "athlete_team athlete")
      case None then show ?thesis using u a by (simp add: manage_athlete_stats_def)
    next
      case t: (Some team)
      show ?thesis
      proof (cases "is_their_coach u athlete \<or> is_admin u")
        case False then show ?thesis using u a t by (simp add: manage_athlete_stats_def)
      next
        case True
        have m: "manage_athlete_stats universal today request pk db1
                = stats_post universal request pk athlete (team_sport team) db1"
          if "athletes db1 = athletes db" for db1
          using that assms(2) True u a t by (auto simp add: manage_athlete_stats_def)
        have "athletes (snd (stats_post universal request pk athlete (team_sport team) db)) = athletes db"
          using manage_athlete_stats_athletes[of universal today request pk db] m[of db] by simp
        then show ?thesis
          using m[of db] m[of "snd (stats_post universal request pk athlete (team_sport team) db)"]
            stats_post_idempotent[OF assms(1)] by simp
      qed
    qed
  qed
qed

subsection \<open>The fields of the forms\<close>

lemma fold_upd_dom:
  "dom (fold (\<lambda>x fs. fs(k x \<mapsto> v x)) xs m) = dom m \<union> k ` set xs"
  by (induction xs arbitrary: m) auto

lemma fold_upd_notin:
  "key \<notin> k ` set xs \<Longrightarrow> fold (\<lambda>x fs. fs(k x \<mapsto> v x)) xs m key = m key"
  by (induction xs arbitrary: m) auto

lemma fold_upd_in:
  "key \<in> k ` set xs \<Longrightarrow>
   \<exists>x\<in>set xs. k x = key \<and> fold (\<lambda>x fs. fs(k x \<mapsto> v x)) xs m key = Some (v x)"
proof (induction xs arbitrary: m)
  case Nil then show ?case by simp
next
  case (Cons a xs)
  let ?F = "\<lambda>x fs. fs(k x \<mapsto> v x)"
  have step: "fold ?F (a # xs) m key = fold ?F xs (m(k a \<mapsto> v a)) key"
    by (simp only: fold_simps comp_apply)
  show ?case
  proof (cases "key \<in> k ` set xs")
    case True
    then obtain x where x: "x \<in> set xs" "k x = key"
        "fold ?F xs (m(k a \<mapsto> v a)) key = Some (v x)"
      using Cons.IH[of "m(k a \<mapsto> v a)"] by blast
    show ?thesis
    proof (intro bexI[of _ x] conjI)
      show "k x = key" by (rule x(2))
      show "fold ?F (a # xs) m key = Some (v x)" unfolding step by (rule x(3))
      show "x \<in> set (a # xs)" using x(1) by simp
    qed
  next
    case False
    then have ka: "k a = key" using Cons.prems by auto
    have "fold ?F xs (m(k a \<mapsto> v a)) key = (m(k a \<mapsto> v a)) key"
      using False by (rule fold_upd_notin)
    also have "\<dots> = Some (v a)" using ka by simp
    finally have r: "fold ?F xs (m(k a \<mapsto> v a)) key = Some (v a)" .
    show ?thesis
    proof (intro bexI[of _ a] conjI)
      show "k a = key" by (rule ka)
      show "fold ?F (a # xs) m key = Some (v a)" unfolding step by (rule r)
      show "a \<in> set (a # xs)" by simp
    qed
  qed
qed

lemma universal_fold:
  "fold (\<lambda>(key, label) fs. fs(key \<mapsto> universal_field label)) universal m =
   fold (\<lambda>p fs. fs(fst p \<mapsto> universal_field (snd p))) universal m"
  by (induction universal arbitrary: m) (simp_all add: case_prod_beta)

lemma ScorecardForm_dom:
  "dom (form_fields (ScorecardForm universal db data ini sp)) =
     {''year''} \<union> fst ` set universal \<union> short_name ` set (sport_specific_stats db sp)"
  by (simp add: ScorecardForm_def universal_fold fold_upd_dom Un_assoc)

lemma ScorecardForm_year:
  assumes "''year'' \<notin> fst ` set universal" "''year'' \<notin> short_name ` set (sport_specific_stats db sp)"
  shows "form_fields (ScorecardForm universal db data ini sp) ''year'' = Some year_field"
  using assms by (simp add: ScorecardForm_def universal_fold fold_upd_notin)

lemma ScorecardForm_specific:
  assumes "d \<in> set (sport_specific_stats db sp)"
  shows "\<exists>f. form_fields (ScorecardForm universal db data ini sp) (short_name d) = Some f \<and>
             \<not> field_required f \<and> field_kind f = CharField"
proof -
  have "short_name d \<in> short_name ` set (sport_specific_stats db sp)" using assms by simp
  then obtain x where "fold (\<lambda>x fs. fs(short_name x \<mapsto> stat_field x)) (sport_specific_stats db sp)
      (fold (\<lambda>(key, label) fs. fs(key \<mapsto> universal_field label)) universal
             [''year'' \<mapsto> year_field]) (short_name d) = Some (stat_field x)"
    using fold_upd_in[of "short_name d" short_name "sport_specific_stats db sp" stat_field] by blast
  then show ?thesis by (simp add: ScorecardForm_def stat_field_def)
qed

lemma ScorecardForm_universal:
  assumes "(key, label) \<in> set universal"
  shows "\<exists>f. form_fields (ScorecardForm universal db data ini sp) key = Some f \<and>
             \<not> field_required f \<and> field_kind f = CharField"
proof (cases "key \<in> short_name ` set (sport_specific_stats db sp)")
  case True
  then obtain d where "d \<in> set (sport_specific_stats db sp)" "short_name d = key" by auto
  then show ?thesis using ScorecardForm_specific[of d db sp universal data ini] by simp
next
  case False
  have "key \<in> fst ` set universal" using assms by force
  then have "\<exists>p\<in>set universal. fst p = key \<and>
      fold (\<lambda>p fs. fs(fst p \<mapsto> universal_field (snd p))) universal
        [''year'' \<mapsto> year_field] key = Some (universal_field (snd p))"
    by (rule fold_upd_in)
  then obtain p where "p \<in> set universal"
    "fold (\<lambda>p fs. fs(fst p \<mapsto> universal_field (snd p))) universal
      [''year'' \<mapsto> year_field] key = Some (universal_field (snd p))"
    by blast
  then have "form_fields (ScorecardForm universal db data ini sp) key
      = Some (universal_field (snd p))"
    using False by (simp add: ScorecardForm_def universal_fold fold_upd_notin)
  then show ?thesis by (simp add: universal_field_def)
qed

lemma GameReportForm_dom:
  "dom (form_fields (GameReportForm db (Some sp))) = short_name ` set (sport_specific_stats db sp)"
  by (simp add: GameReportForm_def fold_upd_dom)

lemma GameReportForm_specific:
  assumes "d \<in> set (sport_specific_stats db sp)"
  shows "\<exists>f. form_fields (GameReportForm db (Some sp)) (short_name d) = Some f \<and>
             \<not> field_required f \<and> field_kind f = CharField"
proof -
  have "short_name d \<in> short_name ` set (sport_specific_stats db sp)" using assms by simp
  then obtain x where "fold (\<lambda>x fs. fs(short_name x \<mapsto> stat_field x)) (sport_specific_stats db sp)
      Map.empty (short_name d) = Some (stat_field x)"
    using fold_upd_in[of "short_name d" short_name "sport_specific_stats db sp" stat_field] by blast
  then show ?thesis by (simp add: GameReportForm_def stat_field_def)
qed

subsection \<open>The initial data of the fresh form\<close>

lemma initial_data_year:
  "list_all (\<lambda>r. ps_statistic r \<in> stat_pk ` set (statistics db)) rs \<Longrightarrow>
   ''year'' \<notin> short_name ` set (statistics db) \<Longrightarrow>
   \<exists>ini'. initial_data db rs ini = Inr ini' \<and> ini' ''year'' = ini ''year''"
proof (induction rs arbitrary: ini)
  case Nil show ?case by simp
next
  case (Cons r rs)
  have "ps_statistic r \<in> stat_pk ` set (statistics db)" using Cons.prems(1) by simp
  then have "find (\<lambda>s. stat_pk s = ps_statistic r) (statistics db) \<noteq> None"
    by (auto simp: find_None_iff)
  then obtain s where s: "find (\<lambda>s. stat_pk s = ps_statistic r) (statistics db) = Some s" by blast
  then have "s \<in> set (statistics db)" by (auto simp: find_Some_iff)
  then have ne: "short_name s \<noteq> ''year''" using Cons.prems(2) by force
  have "list_all (\<lambda>r. ps_statistic r \<in> stat_pk ` set (statistics db)) rs" using Cons.prems(1) by simp
  then obtain ini' where "initial_data db rs (ini(short_name s \<mapsto> StrV (ps_value r))) = Inr ini'"
      "ini' ''year'' = (ini(short_name s \<mapsto> StrV (ps_value r))) ''year''"
    using Cons.IH[OF _ Cons.prems(2)] by blast
  then show ?case using s ne by simp
qed

lemma stats_get_initial_year:
  assumes "statistics_present db" "''year'' \<notin> short_name ` set (statistics db)"
  shows "\<exists>ini. stats_get universal today athlete sp db =
            (Render_manage_stats_form (ScorecardForm universal db None ini sp) athlete, db) \<and>
           ini ''year'' = Some (IntV today)"
proof -
  let ?rs = "filter (\<lambda>r. ps_athlete r = athlete_pk athlete \<and> ps_year r = today) (performance_stats db)"
  have "list_all (\<lambda>r. ps_statistic r \<in> stat_pk ` set (statistics db)) ?rs"
    using assms(1) by (simp add: statistics_present_def list_all_iff)
  then obtain ini where ini: "initial_data db ?rs [''year'' \<mapsto> IntV today] = Inr ini"
      "ini ''year'' = [''year'' \<mapsto> IntV today] ''year''"
    using initial_data_year[OF _ assms(2)] by blast
  have "stats_get universal today athlete sp db =
            (Render_manage_stats_form (ScorecardForm universal db None ini sp) athlete, db)"
    using ini(1) by (simp add: stats_get_def)
  moreover have "ini ''year'' = Some (IntV today)" using ini(2) by simp
  ultimately show ?thesis by blast
qed

subsection \<open>Records keep their triples and their places; new records come last\<close>

lemma upsert_step_keys:
  "\<exists>new. map ps_key (performance_stats (snd (upsert_step a y cd e db))) =
          map ps_key (performance_stats db) @ new"
proof (cases rule: upsert_step_cases[of cd e a y db])
  case skip then show ?thesis by simp
next
  case (unresolved x) then show ?thesis by simp
next
  case (failed s db1 x) then show ?thesis by simp
next
  case (written s db1 db2)
  have "performance_stats db1 = performance_stats db" using written(2) by simp
  then show ?thesis using update_or_create_keys[OF written(3)] written(4) by auto
qed

lemma run_entries_keys:
  "\<exists>new. map ps_key (performance_stats (snd (run_entries a y cd es db))) =
          map ps_key (performance_stats db) @ new"
proof (induction es arbitrary: db)
  case Nil show ?case by simp
next
  case (Cons e es)
  let ?db1 = "snd (upsert_step a y cd e db)"
  obtain new1 where n1: "map ps_key (performance_stats ?db1) = map ps_key (performance_stats db) @ new1"
    using upsert_step_keys[of a y cd e db] by blast
  show ?case
  proof (cases rule: run_entries_Cons_cases[of a y cd e db es])
    case (stop x) then show ?thesis using n1 by simp
  next
    case go
    obtain new2 where "map ps_key (performance_stats (snd (run_entries a y cd es ?db1)))
        = map ps_key (performance_stats ?db1) @ new2"
      using Cons.IH[of ?db1] by blast
    then have "map ps_key (performance_stats (snd (run_entries a y cd (e # es) db)))
        = map ps_key (performance_stats db) @ (new1 @ new2)"
      using go(2) n1 by simp
    then show ?thesis by blast
  qed
qed

lemma manage_athlete_stats_keys:
  "take (length (performance_stats db))
     (map ps_key (performance_stats (snd (manage_athlete_stats universal today request pk db))))
   = map ps_key (performance_stats db)"
proof -
  have "take (length (performance_stats db))
     (map ps_key (performance_stats (snd (upsert universal a sp y cd db))))
   = map ps_key (performance_stats db)" for a sp y cd
  proof -
    obtain new where "map ps_key (performance_stats (snd (run_entries a y cd (upsert_entries universal db sp) db)))
        = map ps_key (performance_stats db) @ new"
      using run_entries_keys[of a y cd "upsert_entries universal db sp" db] by blast
    then show ?thesis by (simp add: upsert_run)
  qed
  then show ?thesis using manage_athlete_stats_db[of universal today request pk db] by auto
qed

section \<open>The claims\<close>

text \<open>
  C1.  The submission is not all-or-nothing.  In the second example the write for
  Points is made, then the lookup for Assists raises; the exception leaves the view
  (a server error, not an error message), and the database keeps the new Points
  definition and the new Points record of the athlete.
\<close>

theorem partial_submission_is_kept:
  "(case fst (manage_athlete_stats ex_universal2 2024 ex_post2 1 ex_twice) of
      Server_error e \<Rightarrow> e = MultipleObjectsReturned
    | _ \<Rightarrow> False) \<and>
   performance_stats ex_twice = [] \<and>
   performance_stats (snd (manage_athlete_stats ex_universal2 2024 ex_post2 1 ex_twice)) =
     [\<lparr>ps_pk = 1, ps_athlete = 1, ps_statistic = 4, ps_year = 2024, ps_value = ''10''\<rparr>] \<and>
   snd (manage_athlete_stats ex_universal2 2024 ex_post2 1 ex_twice) \<noteq> ex_twice"
  by code_simp

text \<open>
  C2.  In a database whose records have unique primary keys, applying the two loops
  with the same athlete, sport, year and cleaned values to the database they left gives
  the same outcome and leaves that database exactly as it is: no record is added, none
  changes its value.  This holds for a submission that ended in an exception as well.
  After a submission without exception every submitted triple has exactly one record.
  The same holds for the whole view on a POST request sent twice.
\<close>

theorem upsert_twice_is_once:
  assumes "distinct (map ps_pk (performance_stats db))"
  shows
    "upsert universal a sp y cleaned (snd (upsert universal a sp y cleaned db))
       = upsert universal a sp y cleaned db \<and>
     (fst (upsert universal a sp y cleaned db) = None \<longrightarrow>
        settled a y cleaned (snd (upsert universal a sp y cleaned db))
          (upsert_entries universal db sp)) \<and>
     (req_method request = POST \<longrightarrow>
        manage_athlete_stats universal today request pk
           (snd (manage_athlete_stats universal today request pk db))
         = manage_athlete_stats universal today request pk db)"
  using upsert_idempotent[OF assms] manage_athlete_stats_idempotent[OF assms]
    run_entries_settled[OF _ assms, of a y cleaned "upsert_entries universal db sp"]
  by (simp add: upsert_run)

theorem upsert_twice_is_once_witness:
  "distinct (map ps_pk (performance_stats ex_scored)) \<and>
   snd (upsert ex_universal 1 7 2024 ex_resubmitted ex_scored)
     = ex_scored\<lparr>performance_stats :=
         [\<lparr>ps_pk = 1, ps_athlete = 1, ps_statistic = 2, ps_year = 2024, ps_value = ''12''\<rparr>,
          \<lparr>ps_pk = 2, ps_athlete = 1, ps_statistic = 1, ps_year = 2024, ps_value = ''3''\<rparr>]\<rparr> \<and>
   snd (upsert ex_universal 1 7 2024 ex_resubmitted
          (snd (upsert ex_universal 1 7 2024 ex_resubmitted ex_scored)))
     = snd (upsert ex_universal 1 7 2024 ex_resubmitted ex_scored)"
proof -
  have d: "distinct (map ps_pk (performance_stats ex_scored))"
    by (simp add: ex_scored_def ex_db_def)
  have e: "snd (upsert ex_universal 1 7 2024 ex_resubmitted ex_scored)
     = ex_scored\<lparr>performance_stats :=
         [\<lparr>ps_pk = 1, ps_athlete = 1, ps_statistic = 2, ps_year = 2024, ps_value = ''12''\<rparr>,
          \<lparr>ps_pk = 2, ps_athlete = 1, ps_statistic = 1, ps_year = 2024, ps_value = ''3''\<rparr>]\<rparr>"
    by code_simp
  have "upsert ex_universal 1 7 2024 ex_resubmitted
          (snd (upsert ex_universal 1 7 2024 ex_resubmitted ex_scored))
     = upsert ex_universal 1 7 2024 ex_resubmitted ex_scored"
    using upsert_twice_is_once[OF d, of ex_universal 1 7 2024 ex_resubmitted] by blast
  then show ?thesis using d e by simp
qed

text \<open>
  C3.  For a logged-in requester and an existing athlete, write \<open>allowed\<close> for:
  the requester's role is ADMINISTRATOR, or the requester has a coach profile and it is
  the athlete's assigned coach.  The view answers with the authorization error exactly
  when the athlete has a team and \<open>allowed\<close> is false (an athlete without a team is
  refused before, see C5); when \<open>allowed\<close> is false the request is refused and the
  database is left as it was; when \<open>allowed\<close> holds and the athlete has a team the
  request goes on to the form.
\<close>

theorem authorization_admin_or_own_coach:
  assumes "req_user request = Some u"
    and "find (\<lambda>a. athlete_pk a = pk) (athletes db) = Some athlete"
  shows
    "(fst (manage_athlete_stats universal today request pk db)
        = Redirect_athlete_detail pk Error_not_authorized
      \<longleftrightarrow> athlete_team athlete \<noteq> None \<and>
          \<not> (user_role u = ADMINISTRATOR \<or>
             (\<exists>c. user_coach u = Some c \<and> athlete_coach athlete = Some (coach_pk c)))) \<and>
     (\<not> (user_role u = ADMINISTRATOR \<or>
         (\<exists>c. user_coach u = Some c \<and> athlete_coach athlete = Some (coach_pk c)))
      \<longrightarrow> snd (manage_athlete_stats universal today request pk db) = db \<and>
          fst (manage_athlete_stats universal today request pk db)
            \<in> {Redirect_athlete_detail pk Error_not_authorized,
               Redirect_athlete_detail pk Error_no_team}) \<and>
     (\<forall>team. athlete_team athlete = Some team \<and>
         (user_role u = ADMINISTRATOR \<or>
          (\<exists>c. user_coach u = Some c \<and> athlete_coach athlete = Some (coach_pk c)))
      \<longrightarrow> manage_athlete_stats universal today request pk db =
            (if req_method request = POST
             then stats_post universal request pk athlete (team_sport team) db
             else stats_get universal today athlete (team_sport team) db))"
proof -
  let ?allowed = "user_role u = ADMINISTRATOR \<or>
             (\<exists>c. user_coach u = Some c \<and> athlete_coach athlete = Some (coach_pk c))"
  have allowed: "(is_their_coach u athlete \<or> is_admin u) = ?allowed"
    by (auto simp: is_their_coach_def is_admin_def split: option.splits)
  show ?thesis
  proof (cases "athlete_team athlete")
    case None
    then show ?thesis using assms by (simp add: manage_athlete_stats_def)
  next
    case (Some team)
    show ?thesis
    proof (cases ?allowed)
      case False
      then have "manage_athlete_stats universal today request pk db =
           (Redirect_athlete_detail pk Error_not_authorized, db)"
        using assms Some allowed by (simp add: manage_athlete_stats_def)
      then show ?thesis using False Some by auto
    next
      case True
      have m: "manage_athlete_stats universal today request pk db =
            (if req_method request = POST
             then stats_post universal request pk athlete (team_sport team) db
             else stats_get universal today athlete (team_sport team) db)"
        using assms Some allowed True by (simp add: manage_athlete_stats_def)
      have "fst (manage_athlete_stats universal today request pk db)
          \<noteq> Redirect_athlete_detail pk Error_not_authorized"
        unfolding m
        using stats_post_not_rejected[of universal request pk athlete "team_sport team" db Error_not_authorized]
          stats_get_not_rejected[of universal today athlete "team_sport team" db pk Error_not_authorized]
        by auto
      then show ?thesis using True Some m by simp
    qed
  qed
qed

theorem authorization_admin_or_own_coach_witness:
  "req_user (ex_post ex_player) = Some ex_player \<and>
   find (\<lambda>a. athlete_pk a = 1) (athletes ex_db) = Some ex_athlete \<and>
   fst (manage_athlete_stats ex_universal 2024 (ex_post ex_player) 1 ex_db)
     = Redirect_athlete_detail 1 Error_not_authorized \<and>
   snd (manage_athlete_stats ex_universal 2024 (ex_post ex_player) 1 ex_db) = ex_db"
proof -
  have a: "req_user (ex_post ex_player) = Some ex_player" by (simp add: ex_post_def)
  have b: "find (\<lambda>a. athlete_pk a = 1) (athletes ex_db) = Some ex_athlete"
    by (simp add: ex_db_def ex_athlete_def ex_teamless_def)
  have c: "athlete_team ex_athlete \<noteq> None" "user_role ex_player \<noteq> ADMINISTRATOR"
    "user_coach ex_player = None"
    by (simp_all add: ex_athlete_def ex_player_def)
  show ?thesis
    using authorization_admin_or_own_coach[OF a b, of ex_universal 2024] a b c by simp
qed

text \<open>
  C4.  Let \<open>key\<close> be a key whose cleaned value is missing or empty, in a database with
  unique primary keys.  A statistic of the athlete's sport with that short name keeps
  its records as they were (none created, changed or removed, for any athlete and
  year).  For a universal pair (key, label) whose label no other key of
  \<^verbatim>\<open>UNIVERSAL_STATISTICS\<close> carries, no universal definition of that name is created and
  every existing one keeps its records as they were.  This holds however the submission
  ends.
\<close>

theorem selective_write:
  assumes "unique_pks db" and "\<not> truthy (cleaned key)"
  shows
    "(d \<in> set (sport_specific_stats db sp) \<and> short_name d = key \<longrightarrow>
        records_of d (snd (upsert universal a sp y cleaned db)) = records_of d db) \<and>
     ((key, label) \<in> set universal \<and> (\<forall>k'. (k', label) \<in> set universal \<longrightarrow> k' = key) \<longrightarrow>
        universal_definitions label (snd (upsert universal a sp y cleaned db))
          = universal_definitions label db \<and>
        (d \<in> set (universal_definitions label db) \<longrightarrow>
           records_of d (snd (upsert universal a sp y cleaned db)) = records_of d db))"
proof (intro conjI impI)
  assume d: "d \<in> set (sport_specific_stats db sp) \<and> short_name d = key"
  then have "d \<in> set (statistics db)" "stat_sport d = Some sp"
    by (simp_all add: sport_specific_stats_def)
  moreover have "not_submitted universal sp cleaned d"
    using d assms(2) \<open>stat_sport d = Some sp\<close> by (simp add: not_submitted_def)
  ultimately show "records_of d (snd (upsert universal a sp y cleaned db)) = records_of d db"
    using upsert_frame[OF assms(1)] by simp
next
  assume k: "(key, label) \<in> set universal \<and> (\<forall>k'. (k', label) \<in> set universal \<longrightarrow> k' = key)"
  then have all: "list_all (\<lambda>(k, l). l \<noteq> label \<or> \<not> truthy (cleaned k)) universal"
    using assms(2) by (auto simp: list_all_iff)
  then show "universal_definitions label (snd (upsert universal a sp y cleaned db))
          = universal_definitions label db"
    by (rule upsert_universal_definitions)
  assume "d \<in> set (universal_definitions label db)"
  then have d: "d \<in> set (statistics db)" "stat_name d = label" "stat_sport d = None"
    by (simp_all add: universal_definitions_def)
  then have "not_submitted universal sp cleaned d" using all by (simp add: not_submitted_def)
  then show "records_of d (snd (upsert universal a sp y cleaned db)) = records_of d db"
    using upsert_frame[OF assms(1) d(1)] by simp
qed

theorem selective_write_witness:
  "unique_pks ex_scored \<and> \<not> truthy (ex_resubmitted ''goals'') \<and>
   ex_goals \<in> set (sport_specific_stats ex_scored 7) \<and> short_name ex_goals = ''goals'' \<and>
   records_of ex_goals
     (snd (upsert ex_universal 1 7 2024 ex_resubmitted ex_scored))
     = [\<lparr>ps_pk = 2, ps_athlete = 1, ps_statistic = 1, ps_year = 2024, ps_value = ''3''\<rparr>]"
proof -
  have e: "\<not> truthy (ex_resubmitted ''goals'')"
    by (simp add: truthy_def ex_resubmitted_def)
  have g: "ex_goals \<in> set (sport_specific_stats ex_scored 7)" "short_name ex_goals = ''goals''"
    by (simp_all add: sport_specific_stats_def ex_scored_def ex_db_def ex_goals_def)
  have r: "records_of ex_goals ex_scored
      = [\<lparr>ps_pk = 2, ps_athlete = 1, ps_statistic = 1, ps_year = 2024, ps_value = ''3''\<rparr>]"
    by (simp add: records_of_def ex_scored_def ex_db_def ex_goals_def)
  show ?thesis
    using selective_write[where cleaned = ex_resubmitted and key = "''goals''" and d = ex_goals
        and sp = 7 and universal = ex_universal and a = 1 and y = 2024, OF unique_pks_ex_scored e]
      unique_pks_ex_scored e g r by simp
qed

text \<open>
  C5.  When the athlete has no team, the view answers with the no-team error and the
  redirect to the athlete's detail page, whatever the requester's role and the
  request's method or data, and the database is left as it was: the check stands before
  the authorization check and before the loops.
\<close>

theorem no_team_precedes_authorization:
  assumes "req_user request = Some u"
    and "find (\<lambda>a. athlete_pk a = pk) (athletes db) = Some athlete"
    and "athlete_team athlete = None"
  shows "manage_athlete_stats universal today request pk db =
           (Redirect_athlete_detail pk Error_no_team, db)"
  using assms by (simp add: manage_athlete_stats_def)

theorem no_team_precedes_authorization_witness:
  "req_user (ex_post ex_admin) = Some ex_admin \<and>
   find (\<lambda>a. athlete_pk a = 2) (athletes ex_db) = Some ex_teamless \<and>
   athlete_team ex_teamless = None \<and>
   manage_athlete_stats ex_universal 2024 (ex_post ex_admin) 2 ex_db =
     (Redirect_athlete_detail 2 Error_no_team, ex_db)"
proof -
  have a: "req_user (ex_post ex_admin) = Some ex_admin" by (simp add: ex_post_def)
  have b: "find (\<lambda>a. athlete_pk a = 2) (athletes ex_db) = Some ex_teamless"
    by (simp add: ex_db_def ex_athlete_def ex_teamless_def)
  have c: "athlete_team ex_teamless = None" by (simp add: ex_teamless_def)
  show ?thesis using no_team_precedes_authorization[OF a b c] a b c by simp
qed

text \<open>
  C6.  \<open>ScorecardForm\<close>, the form the statistics view builds, is modelled from the
  spec.  When no statistic is keyed \<open>year\<close>: the form built for a sport has an optional
  text field under the key of every universal pair and under the short name of every
  statistic of the sport, the required integer field \<open>year\<close>, and no other field; and
  the view, on a request that is not a POST, builds it with the current year as the
  initial value of \<open>year\<close> (every record referring to a statistic of the table).
  \<open>GameReportForm\<close>, the form of the sources built the same way, has exactly the fields
  of the statistics of the sport.
\<close>

theorem scorecard_form_fields:
  assumes "''year'' \<notin> fst ` set universal" and "''year'' \<notin> short_name ` set (statistics db)"
  shows
    "(\<forall>(key, label)\<in>set universal.
        \<exists>f. form_fields (ScorecardForm universal db data ini sp) key = Some f \<and>
            \<not> field_required f \<and> field_kind f = CharField) \<and>
     (\<forall>d\<in>set (sport_specific_stats db sp).
        \<exists>f. form_fields (ScorecardForm universal db data ini sp) (short_name d) = Some f \<and>
            \<not> field_required f \<and> field_kind f = CharField) \<and>
     form_fields (ScorecardForm universal db data ini sp) ''year'' = Some year_field \<and>
     field_required year_field \<and> field_kind year_field = IntegerField \<and>
     dom (form_fields (ScorecardForm universal db data ini sp)) =
       {''year''} \<union> fst ` set universal \<union> short_name ` set (sport_specific_stats db sp) \<and>
     (statistics_present db \<longrightarrow>
        (\<exists>ini'. stats_get universal today athlete sp db =
            (Render_manage_stats_form (ScorecardForm universal db None ini' sp) athlete, db) \<and>
           ini' ''year'' = Some (IntV today))) \<and>
     dom (form_fields (GameReportForm db (Some sp))) = short_name ` set (sport_specific_stats db sp) \<and>
     (\<forall>d\<in>set (sport_specific_stats db sp).
        \<exists>f. form_fields (GameReportForm db (Some sp)) (short_name d) = Some f \<and>
            \<not> field_required f \<and> field_kind f = CharField)"
proof -
  have y: "''year'' \<notin> short_name ` set (sport_specific_stats db sp)"
    using assms(2) by (auto simp: sport_specific_stats_def)
  have u: "\<forall>(key, label)\<in>set universal.
        \<exists>f. form_fields (ScorecardForm universal db data ini sp) key = Some f \<and>
            \<not> field_required f \<and> field_kind f = CharField"
    using ScorecardForm_universal[of _ _ universal db data ini sp] by auto
  show ?thesis
    using u ScorecardForm_specific[of _ db sp universal data ini]
      ScorecardForm_year[OF assms(1) y, of data ini]
      ScorecardForm_dom[of universal db data ini sp]
      stats_get_initial_year[OF _ assms(2), of universal today athlete sp]
      GameReportForm_dom[of db sp] GameReportForm_specific[of _ db sp]
    by (simp add: year_field_def)
qed

theorem scorecard_form_fields_witness:
  "''year'' \<notin> fst ` set ex_universal \<and> ''year'' \<notin> short_name ` set (statistics ex_scored) \<and>
   form_fields (ScorecardForm ex_universal ex_scored None Map.empty 7) ''year'' = Some year_field \<and>
   dom (form_fields (ScorecardForm ex_universal ex_scored None Map.empty 7))
     = {''year'', ''pts'', ''goals''}"
proof -
  have a: "''year'' \<notin> fst ` set ex_universal" by (simp add: ex_universal_def)
  have b: "''year'' \<notin> short_name ` set (statistics ex_scored)"
    by (simp add: ex_scored_def ex_db_def ex_goals_def)
  have c: "sport_specific_stats ex_scored 7 = [ex_goals]"
    by (simp add: sport_specific_stats_def ex_scored_def ex_db_def ex_goals_def)
  show ?thesis
    using scorecard_form_fields[OF a b, of None Map.empty 7 2024 ex_athlete] a b
    by (simp add: c ex_universal_def ex_goals_def insert_commute)
qed

text \<open>
  C7.  A statistic owned by sport A is not among the statistics applicable to an
  athlete of another sport B: it is not in the queryset the view iterates, the forms
  built for sport B are the forms built without it, and (primary keys being unique) a
  submission for an athlete of sport B leaves every record of it as it was.
\<close>

theorem sport_isolation:
  assumes "stat_sport d = Some A" and "A \<noteq> B"
  shows
    "d \<notin> set (sport_specific_stats db B) \<and>
     GameReportForm (without_statistic d db) (Some B) = GameReportForm db (Some B) \<and>
     ScorecardForm universal (without_statistic d db) data initial B
       = ScorecardForm universal db data initial B \<and>
     (unique_pks db \<and> d \<in> set (statistics db) \<longrightarrow>
        records_of d (snd (upsert universal a B y cleaned db)) = records_of d db)"
proof -
  have ne: "stat_sport d \<noteq> Some B" using assms by simp
  have "not_submitted universal B cleaned d" using assms by (simp add: not_submitted_def)
  then have "unique_pks db \<and> d \<in> set (statistics db) \<longrightarrow>
        records_of d (snd (upsert universal a B y cleaned db)) = records_of d db"
    using upsert_frame[of db d universal B cleaned a y] by simp
  moreover have "d \<notin> set (sport_specific_stats db B)"
    using ne by (simp add: sport_specific_stats_def)
  ultimately show ?thesis
    using sport_specific_stats_without[OF ne, of db]
    by (simp add: GameReportForm_def ScorecardForm_def)
qed

theorem sport_isolation_witness:
  "stat_sport ex_goals = Some 7 \<and> (7::nat) \<noteq> 8 \<and> unique_pks ex_db \<and>
   ex_goals \<in> set (statistics ex_db) \<and>
   sport_specific_stats ex_db 8 = [] \<and>
   records_of ex_goals (snd (upsert ex_universal 1 8 2024 ex_resubmitted ex_db))
     = records_of ex_goals ex_db"
proof -
  have a: "stat_sport ex_goals = Some 7" by (simp add: ex_goals_def)
  have b: "(7::nat) \<noteq> 8" by simp
  have c: "ex_goals \<in> set (statistics ex_db)" by (simp add: ex_db_def)
  have d: "sport_specific_stats ex_db 8 = []"
    by (simp add: sport_specific_stats_def ex_db_def ex_goals_def)
  show ?thesis
    using sport_isolation[OF a b, of ex_db ex_universal None Map.empty 1 2024 ex_resubmitted]
      a b c d unique_pks_ex_db by simp
qed

text \<open>
  C8.  Starting from a database with at most one performance record per (athlete,
  statistic, year) triple, the statistics view leaves a database with at most one
  record per triple, whatever the request and however it ends (redirect, form
  rendered again, or an exception of a later write).  The records that were there keep
  their triples and their places (an update is made in place); records are only added,
  after them.
\<close>

theorem uniqueness_preserved:
  "unique_triples db \<Longrightarrow>
   unique_triples (snd (manage_athlete_stats universal today request pk db)) \<and>
   take (length (performance_stats db))
     (map ps_key (performance_stats (snd (manage_athlete_stats universal today request pk db))))
     = map ps_key (performance_stats db)"
  using upsert_unique[of db] manage_athlete_stats_db[of universal today request pk db]
    manage_athlete_stats_keys[of db universal today request pk]
  by auto

lemma ex_scored_unique_triples: "unique_triples ex_scored"
  by (simp add: unique_triples_def ex_scored_def ex_db_def ps_key_def)

theorem uniqueness_preserved_witness:
  "unique_triples ex_scored \<and>
   unique_triples (snd (manage_athlete_stats ex_universal 2024 (ex_post ex_admin) 1 ex_scored)) \<and>
   map ps_key (performance_stats (snd (manage_athlete_stats ex_universal 2024 (ex_post ex_admin) 1 ex_scored)))
     = [(1, 2, 2024), (1, 1, 2024)]"
proof -
  have "map ps_key (performance_stats (snd (manage_athlete_stats ex_universal 2024 (ex_post ex_admin) 1 ex_scored)))
     = [(1, 2, 2024), (1, 1, 2024)]"
    by code_simp
  then show ?thesis
    using uniqueness_preserved[OF ex_scored_unique_triples, of ex_universal 2024 "ex_post ex_admin" 1]
      ex_scored_unique_triples
    by simp
qed

text \<open>
  C9.  No request to the statistics view changes a statistic definition that exists:
  the table after the request starts with the table before it, row for row, so the
  short name of an existing universal definition stays what it was.  And the lookup is
  by name and null sport only: when exactly one universal definition has the label,
  \<open>get_or_create\<close> returns it and writes nothing, whatever key the value came under.
\<close>

theorem universal_resolved_by_name:
  "take (length (statistics db))
     (statistics (snd (manage_athlete_stats universal today request pk db))) = statistics db \<and>
   (universal_definitions label db = [s] \<longrightarrow> get_or_create db label key = Inr (s, db))"
  using manage_athlete_stats_prefix[of db universal today request pk]
  by (simp add: universal_definitions_def get_or_create_def)

theorem universal_resolved_by_name_witness:
  "universal_definitions ''Points'' ex_scored
     = [\<lparr>stat_pk = 2, stat_name = ''Points'', short_name = ''points'', stat_sport = None\<rparr>] \<and>
   get_or_create ex_scored ''Points'' ''pts''
     = Inr (\<lparr>stat_pk = 2, stat_name = ''Points'', short_name = ''points'', stat_sport = None\<rparr>,
            ex_scored) \<and>
   take (length (statistics ex_scored))
     (statistics (snd (manage_athlete_stats ex_universal 2024 (ex_post ex_admin) 1 ex_scored)))
     = statistics ex_scored"
proof -
  have u: "universal_definitions ''Points'' ex_scored
     = [\<lparr>stat_pk = 2, stat_name = ''Points'', short_name = ''points'', stat_sport = None\<rparr>]"
    by (simp add: universal_definitions_def ex_scored_def ex_db_def ex_goals_def)
  show ?thesis
    using universal_resolved_by_name[of ex_scored ex_universal 2024 "ex_post ex_admin" 1
        "''Points''" "\<lparr>stat_pk = 2, stat_name = ''Points'', short_name = ''points'', stat_sport = None\<rparr>" "''pts''"] u
    by simp
qed

text \<open>
  C10.  In the bulk-delete branch of the athlete list view, every user row that is in
  the database before the request and not after it is the user of an athlete in the
  requester's base queryset, and so is every athlete row that goes with it.  The base
  queryset holds athletes of the table only: all of them for an administrator, and for
  any other requester only athletes on the team of the requester's coach profile (role
  COACH) or athlete profile (role ATHLETE).
\<close>

theorem bulk_delete_within_visible:
  assumes "req_user request = Some u"
  shows
    "(\<forall>x\<in>set (users db). x \<notin> set (users (snd (athlete_list_post request db))) \<longrightarrow>
        user_pk x \<in> athlete_user_id ` set (base_queryset u db)) \<and>
     (\<forall>x\<in>set (athletes db). x \<notin> set (athletes (snd (athlete_list_post request db))) \<longrightarrow>
        athlete_user_id x \<in> athlete_user_id ` set (base_queryset u db)) \<and>
     set (base_queryset u db) \<subseteq> set (athletes db) \<and>
     (user_role u = ADMINISTRATOR \<longrightarrow> base_queryset u db = athletes db) \<and>
     (user_role u = COACH \<longrightarrow>
        (\<forall>x\<in>set (base_queryset u db). \<exists>c t. user_coach u = Some c \<and> coach_team c = Some t \<and> on_team t x)) \<and>
     (user_role u = ATHLETE \<longrightarrow>
        (\<forall>x\<in>set (base_queryset u db). \<exists>p t. user_athlete u = Some p \<and> athlete_team p = Some t \<and> on_team t x))"
proof (intro conjI)
  show "\<forall>x\<in>set (users db). x \<notin> set (users (snd (athlete_list_post request db))) \<longrightarrow>
        user_pk x \<in> athlete_user_id ` set (base_queryset u db)"
    using athlete_list_post_cases[OF assms, of db] delete_users_gone[of _ db] by (metis subsetD)
  show "\<forall>x\<in>set (athletes db). x \<notin> set (athletes (snd (athlete_list_post request db))) \<longrightarrow>
        athlete_user_id x \<in> athlete_user_id ` set (base_queryset u db)"
    using athlete_list_post_cases[OF assms, of db] delete_users_athletes_gone[of _ db]
    by (metis subsetD)
  show "set (base_queryset u db) \<subseteq> set (athletes db)" by (rule base_queryset_subset)
  show "user_role u = ADMINISTRATOR \<longrightarrow> base_queryset u db = athletes db"
    by (simp add: base_queryset_def)
  show "user_role u = COACH \<longrightarrow>
        (\<forall>x\<in>set (base_queryset u db). \<exists>c t. user_coach u = Some c \<and> coach_team c = Some t \<and> on_team t x)"
    by (auto simp: base_queryset_def split: option.splits) metis+
  show "user_role u = ATHLETE \<longrightarrow>
        (\<forall>x\<in>set (base_queryset u db). \<exists>p t. user_athlete u = Some p \<and> athlete_team p = Some t \<and> on_team t x)"
    by (auto simp: base_queryset_def split: option.splits) metis+
qed

theorem bulk_delete_within_visible_witness:
  "req_user (ex_delete ex_player) = Some ex_player \<and>
   base_queryset ex_player ex_db = [ex_athlete] \<and>
   users (snd (athlete_list_post (ex_delete ex_player) ex_db)) = [ex_admin, ex_coach, ex_loner] \<and>
   athletes (snd (athlete_list_post (ex_delete ex_player) ex_db)) = [ex_teamless]"
proof -
  have a: "req_user (ex_delete ex_player) = Some ex_player" by (simp add: ex_delete_def)
  have b: "base_queryset ex_player ex_db = [ex_athlete]"
    by (simp add: base_queryset_def on_team_def ex_player_def ex_db_def ex_athlete_def
        ex_teamless_def ex_team_def)
  have c: "users (snd (athlete_list_post (ex_delete ex_player) ex_db)) = [ex_admin, ex_coach, ex_loner]"
    by code_simp
  have d: "athletes (snd (athlete_list_post (ex_delete ex_player) ex_db)) = [ex_teamless]"
    by code_simp
  have "set (base_queryset ex_player ex_db) \<subseteq> set (athletes ex_db)"
    using bulk_delete_within_visible[OF a, of ex_db] by blast
  then show ?thesis using a b c d by simp
qed

end
